theory Spec2Isabelle
  imports Main
begin

section \<open>The middleware runtime of next-api-glue (withMiddleware, middlewareFactory)\<close>

text \<open>
  The source (src/unnamed/part_001) builds, from a terminal handler and the configuration
  \<open>{descriptor, use, useOnError, options}\<close>, an async request handler. For each request
  it creates one shared \<open>middlewareContext\<close>, drives the primary chain \<open>use\<close> with
  \<open>startPullingChain\<close>, runs the handler unless the chain was aborted, sends
  "not implemented" when nothing sent a response, and on any thrown value runs the
  chain \<open>useOnError\<close>.

  Middleware and handlers are callbacks of the caller. They are modelled as scripts: the
  list of things a callback does, in order, with the request, the response and the
  context it is given. Each \<open>await\<close> of the source is a call that returns before the
  caller goes on, so one request is one sequential computation.
\<close>

subsection \<open>Values and callbacks\<close>

text \<open>The JavaScript values the runtime stores or throws (\<open>runtime.error\<close> is \<open>unknown\<close>).\<close>

datatype jsval = JUndefined | JBool bool | JString string | JError string

fun truthy :: "jsval \<Rightarrow> bool" where
  "truthy JUndefined = False"
| "truthy (JBool b) = b"
| "truthy (JString s) = (s \<noteq> [])"
| "truthy (JError m) = True"

text \<open>
  The two runs of \<open>startPullingChain\<close> of one request: the primary chain (logger
  \<open>debug\<close>) and the error handling chain (logger \<open>debug.error\<close>).
\<close>

datatype chain_id = Primary | ErrorChain

text \<open>
  The closures bound to \<open>runtime.next\<close> and \<open>runtime.done\<close>. The context is created
  with closures that throw ("called unexpectedly"); every call of \<open>pullChain\<close> rebinds
  both. A \<open>next\<close> closure refers to the variables of its run and to the
  \<open>chainWasPulled\<close> of its own pull step, a \<open>done\<close> closure to the variables of its
  run only.
\<close>

datatype next_closure = NextUnexpected | NextOf chain_id nat

datatype done_closure = DoneUnexpected | DoneOf chain_id

text \<open>
  What a callback can do. \<open>CaptureControls\<close> is \<open>next = runtime.next; done =
  runtime.done\<close> into variables outside the callback (as the tests do), which a later
  callback can call; calling them before they are assigned is a TypeError.
  \<open>FlushHeaders\<close> sends the headers without ending the response (\<open>res.flushHeaders()\<close>,
  \<open>res.writeHead\<close>, a first \<open>res.write\<close>).
\<close>

datatype effect =
    CallDone
  | CaptureControls
  | CallCapturedDone
  | ResEnd
  | FlushHeaders
  | Throw jsval
  | ReadError
  | SetOption string jsval
  | DeleteOption string

datatype action = AwaitNext | AwaitCapturedNext | Effect effect

text \<open>An item of a chain: a function (its script) or something that is not a function.\<close>

datatype entry = Fn "action list" | NotFn

datatype who = Middleware chain_id nat | Handler

datatype completion = Returned | Threw jsval

subsection \<open>What the runtime logs, and what callbacks observe\<close>

text \<open>
  One constructor for each message of the source's debug loggers (messages of
  \<open>localDebug\<close> carry the run they belong to), and two observations:
  \<open>Invoked w v\<close>, callback \<open>w\<close> starts while \<open>runtime.error\<close> is \<open>v\<close>, and \<open>Saw w v\<close>,
  callback \<open>w\<close> reads \<open>runtime.error\<close> and finds \<open>v\<close>.
\<close>

datatype event =
    Begin
  | SelectingFirstPrimary
  | ErrorInPrimary
  | NotExecutingHandler
  | ExecutingHandler
  | FinishedHandler
  | NoHandler
  | SendingNotImplemented
  | Done
  | AttemptingToHandle jsval
  | SelectingFirstError
  | ErrorInErrorChain jsval
  | ThrowingUnhandled
  | NoErrorHandlers
  | DoneWithErrors
  | AutoDone chain_id
  | NoAutoDone chain_id
  | CallingDoneAfterEnd chain_id
  | SkippedDoneAfterEnd chain_id
  | WarnNextAborted
  | NextManual chain_id
  | WarnNextFinished
  | DoneAborting chain_id
  | WarnDoneAborted
  | WarnDoneFinished
  | ExecutingMiddleware chain_id
  | WarnNonFunction
  | AbortedManually chain_id
  | SelectingNext chain_id
  | NoMoreMiddleware chain_id
  | Deactivated chain_id
  | Stopped chain_id
  | RanAtLeastOne chain_id bool
  | WarnAbortedDueToError
  | Invoked who jsval
  | Saw who jsval

subsection \<open>Configuration and state\<close>

text \<open>
  The second argument of \<open>withMiddleware\<close>, and what the handler it returns closes over:
  that argument and \<open>pagesHandler\<close> (\<open>None\<close> when it is not a function). \<open>use\<close> is an
  array and \<open>useOnError\<close> an array or undefined by their types, so the two checks of
  \<open>Array.isArray\<close> pass.
\<close>

record params =
  descriptor :: "string option"
  use :: "entry list"
  useOnError :: "entry list option"
  options :: "(string \<rightharpoonup> jsval) option"

record config = params +
  pagesHandler :: "action list option"

text \<open>The variables of one run of \<open>startPullingChain\<close>; \<open>chainWasPulled\<close> by pull step.\<close>

record run_state =
  executionWasAborted :: bool
  executionCompleted :: bool
  ranAtLeastOneMiddleware :: bool
  chainWasPulled :: "nat \<Rightarrow> bool"

text \<open>
  The response as far as the runtime reads it, then the state of a request: the
  response, the runs that have wrapped \<open>res.end\<close> (the latest first), the context,
  the captured controls, the variables of the two runs, and the log.
\<close>

record response =
  writableEnded :: bool
  headersSent :: bool
  statusCode :: nat

record state = response +
  end_wrappers :: "chain_id list"
  endpoint_descriptor :: "string option"
  runtime_next :: next_closure
  runtime_done :: done_closure
  runtime_error :: jsval
  ctx_options :: "string \<rightharpoonup> jsval"
  captured_next :: "next_closure option"
  captured_done :: "done_closure option"
  run :: "chain_id \<Rightarrow> run_state"
  trace :: "event list"

definition emit :: "event \<Rightarrow> state \<Rightarrow> state" where
  "emit ev s = s\<lparr>trace := trace s @ [ev]\<rparr>"

definition aborted :: "chain_id \<Rightarrow> state \<Rightarrow> bool" where
  "aborted r s = executionWasAborted (run s r)"

definition completed :: "chain_id \<Rightarrow> state \<Rightarrow> bool" where
  "completed r s = executionCompleted (run s r)"

definition pulled :: "chain_id \<Rightarrow> nat \<Rightarrow> state \<Rightarrow> bool" where
  "pulled r i s = chainWasPulled (run s r) i"

definition set_aborted :: "chain_id \<Rightarrow> state \<Rightarrow> state" where
  "set_aborted r s = s\<lparr>run := (run s)(r := (run s r)\<lparr>executionWasAborted := True\<rparr>)\<rparr>"

definition set_completed :: "chain_id \<Rightarrow> state \<Rightarrow> state" where
  "set_completed r s = s\<lparr>run := (run s)(r := (run s r)\<lparr>executionCompleted := True\<rparr>)\<rparr>"

definition set_ran :: "chain_id \<Rightarrow> state \<Rightarrow> state" where
  "set_ran r s = s\<lparr>run := (run s)(r := (run s r)\<lparr>ranAtLeastOneMiddleware := True\<rparr>)\<rparr>"

definition set_pulled :: "chain_id \<Rightarrow> nat \<Rightarrow> bool \<Rightarrow> state \<Rightarrow> state" where
  "set_pulled r i b s =
     s\<lparr>run := (run s)(r := (run s r)\<lparr>chainWasPulled := (chainWasPulled (run s r))(i := b)\<rparr>)\<rparr>"

definition rebind :: "chain_id \<Rightarrow> nat \<Rightarrow> state \<Rightarrow> state" where
  "rebind r i s = s\<lparr>runtime_next := NextOf r i, runtime_done := DoneOf r\<rparr>"

subsection \<open>The closures \<open>runtime.done\<close> and the wrapped \<open>res.end\<close>\<close>

text \<open>The body of the closure bound to \<open>runtime.done\<close> by a pull step of run \<open>r\<close>.\<close>

definition done_body :: "chain_id \<Rightarrow> state \<Rightarrow> state" where
  "done_body r s =
     (if \<not> completed r s then
        (if \<not> aborted r s then set_aborted r (emit (DoneAborting r) s)
         else emit WarnDoneAborted s)
      else emit WarnDoneFinished s)"

definition call_done :: "done_closure \<Rightarrow> state \<Rightarrow> completion \<times> state" where
  "call_done d s =
     (case d of
        DoneUnexpected \<Rightarrow> (Threw (JError ''runtime.done was called unexpectedly''), s)
      | DoneOf r \<Rightarrow> (Returned, done_body r s))"

text \<open>
  \<open>res.end\<close> after the runs \<open>ws\<close> have wrapped it: the wrapper of a run reads
  \<open>sent\<close>, calls the \<open>res.end\<close> it replaced, and then, when the response had not been
  sent, calls whatever \<open>runtime.done\<close> is bound at that moment, provided its own run
  has neither been aborted nor completed. The innermost \<open>res.end\<close> is the host's.
\<close>

fun end_through :: "chain_id list \<Rightarrow> state \<Rightarrow> completion \<times> state" where
  "end_through [] s = (Returned, s\<lparr>writableEnded := True, headersSent := True\<rparr>)"
| "end_through (r # ws) s =
     (let sent = (writableEnded s \<or> headersSent s) in
      case end_through ws s of
        (Threw e, s1) \<Rightarrow> (Threw e, s1)
      | (Returned, s1) \<Rightarrow>
          if \<not> sent then
            (if \<not> aborted r s1 \<and> \<not> completed r s1
             then call_done (runtime_done s1) (emit (CallingDoneAfterEnd r) s1)
             else (Returned, emit (SkippedDoneAfterEnd r) s1))
          else (Returned, s1))"

definition res_end :: "state \<Rightarrow> completion \<times> state" where
  "res_end s = end_through (end_wrappers s) s"

text \<open>
  Modelled from the spec: \<open>sendNotImplemented\<close> is imported from
  @-xun/next-api-respond, which is not part of the sources; it "forces a default
  not implemented finalization": status 501, and the response is ended through
  \<open>res.end\<close> as the response object has it.
\<close>

definition sendNotImplemented :: "state \<Rightarrow> completion \<times> state" where
  "sendNotImplemented s = res_end (s\<lparr>statusCode := 501\<rparr>)"

subsection \<open>What a callback does, except calling \<open>next\<close>\<close>

definition perform :: "who \<Rightarrow> effect \<Rightarrow> state \<Rightarrow> completion \<times> state" where
  "perform w e s =
     (case e of
        CallDone \<Rightarrow> call_done (runtime_done s) s
      | CaptureControls \<Rightarrow>
          (Returned, s\<lparr>captured_next := Some (runtime_next s),
                        captured_done := Some (runtime_done s)\<rparr>)
      | CallCapturedDone \<Rightarrow>
          (case captured_done s of
             None \<Rightarrow> (Threw (JError ''done is not a function''), s)
           | Some d \<Rightarrow> call_done d s)
      | ResEnd \<Rightarrow> res_end s
      | FlushHeaders \<Rightarrow> (Returned, s\<lparr>headersSent := True\<rparr>)
      | Throw v \<Rightarrow> (Threw v, s)
      | ReadError \<Rightarrow> (Returned, emit (Saw w (runtime_error s)) s)
      | SetOption k v \<Rightarrow> (Returned, s\<lparr>ctx_options := (ctx_options s)(k \<mapsto> v)\<rparr>)
      | DeleteOption k \<Rightarrow> (Returned, s\<lparr>ctx_options := (ctx_options s)(k := None)\<rparr>))"

subsection \<open>Iterators\<close>

text \<open>
  \<open>startPullingChain\<close> is given an array iterator, which \<open>pullChain\<close> and the
  \<open>next\<close> closures share. An array iterator is an index into its array, so the
  iterators of a request are one index for each run. A call returns, with its
  completion and the state, how far it moved each iterator, and its caller goes on from
  there.
\<close>

type_synonym iters = "chain_id \<Rightarrow> nat"

definition no_adv :: iters where
  "no_adv = (\<lambda>r. 0)"

definition advance :: "iters \<Rightarrow> iters \<Rightarrow> iters" where
  "advance n its = (\<lambda>r. its r + n r)"

definition bump :: "chain_id \<Rightarrow> iters \<Rightarrow> iters" where
  "bump r its = its(r := Suc (its r))"

definition chain_of :: "config \<Rightarrow> chain_id \<Rightarrow> entry list" where
  "chain_of cfg r =
     (case r of
        Primary \<Rightarrow> use cfg
      | ErrorChain \<Rightarrow> (case useOnError cfg of None \<Rightarrow> [] | Some ec \<Rightarrow> ec))"

text \<open>What is left to run, as a number: the chain driver ends because it decreases.\<close>

fun esize :: "entry \<Rightarrow> nat" where
  "esize (Fn acts) = 2 * length acts + 3"
| "esize NotFn = 1"

definition left_in :: "config \<Rightarrow> iters \<Rightarrow> nat" where
  "left_in cfg its =
     sum_list (map esize (drop (its Primary) (chain_of cfg Primary)))
     + sum_list (map esize (drop (its ErrorChain) (chain_of cfg ErrorChain)))"

lemma sum_esize_drop_le:
  "sum_list (map esize (drop (i + n) xs)) \<le> sum_list (map esize (drop i xs))"
proof -
  have split: "sum_list (map esize ys) =
        sum_list (map esize (take n ys)) + sum_list (map esize (drop n ys))" for ys
    by (metis append_take_drop_id map_append sum_list_append)
  have "drop (i + n) xs = drop n (drop i xs)"
    by (simp add: add.commute)
  then show ?thesis
    using split [of "drop i xs"] by simp
qed

lemma left_in_advance: "left_in cfg (advance n its) \<le> left_in cfg its"
  unfolding left_in_def advance_def
  by (intro add_mono sum_esize_drop_le)

lemma left_in_bump:
  assumes "its r < length (chain_of cfg r)"
  shows "left_in cfg (bump r its) + esize (chain_of cfg r ! its r) = left_in cfg its"
proof -
  have "drop (its r) (chain_of cfg r) =
        chain_of cfg r ! its r # drop (Suc (its r)) (chain_of cfg r)"
    using assms by (simp add: Cons_nth_drop_Suc)
  then show ?thesis
    by (cases r) (simp_all add: left_in_def bump_def)
qed

lemma left_in_fn:
  "its r < length (chain_of cfg r) \<Longrightarrow> chain_of cfg r ! its r = Fn acts \<Longrightarrow>
   left_in cfg (bump r its) + 2 * length acts + 2 < left_in cfg its"
  using left_in_bump [of its r cfg] by simp

lemma left_in_pulled:
  "its r < length (chain_of cfg r) \<Longrightarrow> left_in cfg (advance n (bump r its)) < left_in cfg its"
  using left_in_bump [of its r cfg] left_in_advance [of cfg n "bump r its"]
  by (cases "chain_of cfg r ! its r") simp_all

subsection \<open>The chain driver: \<open>pullChain\<close>, \<open>runtime.next\<close>, and running a callback\<close>

text \<open>
  \<open>pullChain cfg r its s\<close> is one call of the source's \<open>pullChain\<close> in run \<open>r\<close>;
  \<open>call_next\<close> is a call of a \<open>runtime.next\<close> closure; \<open>run_actions\<close> runs a callback.
  A thrown value leaves through every caller (the source has no handler below
  \<open>startPullingChain\<close>), keeping the state reached.
\<close>

function pullChain :: "config \<Rightarrow> chain_id \<Rightarrow> iters \<Rightarrow> state \<Rightarrow> completion \<times> iters \<times> state"
  and call_next :: "config \<Rightarrow> next_closure \<Rightarrow> iters \<Rightarrow> state \<Rightarrow> completion \<times> iters \<times> state"
  and run_actions :: "config \<Rightarrow> who \<Rightarrow> action list \<Rightarrow> iters \<Rightarrow> state \<Rightarrow> completion \<times> iters \<times> state"
where
  "pullChain cfg r its s =
     (let i = its r;
          s1 = rebind r i (set_pulled r i False s)
      in if i < length (chain_of cfg r) then
           (case (case chain_of cfg r ! i of
                    Fn acts \<Rightarrow>
                      (case run_actions cfg (Middleware r i) acts (bump r its)
                              (emit (Invoked (Middleware r i) (runtime_error s1))
                                 (emit (ExecutingMiddleware r) s1)) of
                         (Threw e, n, s2) \<Rightarrow> (Threw e, n, s2)
                       | (Returned, n, s2) \<Rightarrow> (Returned, n, set_ran r s2))
                  | NotFn \<Rightarrow> (Returned, no_adv, emit WarnNonFunction s1)) of
              (Threw e, n, s2) \<Rightarrow> (Threw e, bump r n, s2)
            | (Returned, n, s2) \<Rightarrow>
                if aborted r s2 then (Returned, bump r n, emit (AbortedManually r) s2)
                else if \<not> pulled r i s2 then
                  (case pullChain cfg r (advance n (bump r its)) (emit (SelectingNext r) s2) of
                     (c, m, s3) \<Rightarrow> (c, advance m (bump r n), s3))
                else (Returned, bump r n, s2))
         else
           (let s2 = emit (NoMoreMiddleware r) s1;
                s3 = (if \<not> completed r s2 then emit (Deactivated r) s2 else s2)
            in (Returned, no_adv, set_completed r s3)))"
| "call_next cfg c its s =
     (case c of
        NextUnexpected \<Rightarrow> (Threw (JError ''runtime.next was called unexpectedly''), no_adv, s)
      | NextOf r i \<Rightarrow>
          if \<not> completed r s then
            (if aborted r s then (Returned, no_adv, emit WarnNextAborted s)
             else pullChain cfg r its (emit (NextManual r) (set_pulled r i True s)))
          else (Returned, no_adv, emit WarnNextFinished s))"
| "run_actions cfg w [] its s = (Returned, no_adv, s)"
| "run_actions cfg w (a # acts) its s =
     (case (case a of
              AwaitNext \<Rightarrow> call_next cfg (runtime_next s) its s
            | AwaitCapturedNext \<Rightarrow>
                (case captured_next s of
                   None \<Rightarrow> (Threw (JError ''next is not a function''), no_adv, s)
                 | Some c \<Rightarrow> call_next cfg c its s)
            | Effect e \<Rightarrow> (case perform w e s of (c, s1) \<Rightarrow> (c, no_adv, s1))) of
        (Threw e, n, s1) \<Rightarrow> (Threw e, n, s1)
      | (Returned, n, s1) \<Rightarrow>
          (case run_actions cfg w acts (advance n its) s1 of
             (c, m, s2) \<Rightarrow> (c, advance m n, s2)))"
  by pat_completeness auto

termination
  by (relation "measure (\<lambda>x. case x of
          Inl (cfg, r, its, s) \<Rightarrow> left_in cfg its
        | Inr (Inl (cfg, c, its, s)) \<Rightarrow> left_in cfg its + 1
        | Inr (Inr (cfg, w, acts, its, s)) \<Rightarrow> left_in cfg its + 2 * length acts + 2)")
     (auto simp: left_in_pulled intro: left_in_fn [simplified] le_imp_less_Suc left_in_advance le_SucI)


declare pullChain.simps [simp del] call_next.simps [simp del]

subsection \<open>\<open>startPullingChain\<close>\<close>

definition fresh_run :: run_state where
  "fresh_run = \<lparr>executionWasAborted = False, executionCompleted = False,
                 ranAtLeastOneMiddleware = False, chainWasPulled = (\<lambda>i. False)\<rparr>"

definition callDoneOnEnd :: "state \<Rightarrow> bool" where
  "callDoneOnEnd s =
     (case ctx_options s ''callDoneOnEnd'' of None \<Rightarrow> False | Some v \<Rightarrow> truthy v)"

text \<open>
  The start of a run: its variables are declared, and \<open>res.end\<close> is wrapped when
  \<open>callDoneOnEnd\<close> is set.
\<close>

definition start_run :: "chain_id \<Rightarrow> state \<Rightarrow> state" where
  "start_run r s =
     (let s0 = s\<lparr>run := (run s)(r := fresh_run)\<rparr>
      in if callDoneOnEnd s0
         then (emit (AutoDone r) s0)\<lparr>end_wrappers := r # end_wrappers s0\<rparr>
         else emit (NoAutoDone r) s0)"

text \<open>
  One run over the iterator of chain \<open>r\<close>: \<open>Inr b\<close> when the run returns \<open>b\<close>
  (\<open>executionWasAborted\<close>), \<open>Inl e\<close> when it throws \<open>e\<close>.
\<close>

definition startPullingChain ::
  "config \<Rightarrow> chain_id \<Rightarrow> iters \<Rightarrow> state \<Rightarrow> (jsval + bool) \<times> iters \<times> state" where
  "startPullingChain cfg r its s =
     (case pullChain cfg r its (start_run r s) of
        (Returned, n, s2) \<Rightarrow>
          (Inr (aborted r s2), n,
           emit (RanAtLeastOne r (ranAtLeastOneMiddleware (run s2 r))) (emit (Stopped r) s2))
      | (Threw e, n, s2) \<Rightarrow>
          (Inl e, n, emit WarnAbortedDueToError (set_aborted r s2)))"

subsection \<open>The request handler that \<open>withMiddleware\<close> returns\<close>

datatype outcome = Resolved | Rejected jsval

definition init_state :: "config \<Rightarrow> response \<Rightarrow> state" where
  "init_state cfg res =
     \<lparr>writableEnded = writableEnded res, headersSent = headersSent res,
      statusCode = statusCode res,
      end_wrappers = [],
      endpoint_descriptor = descriptor cfg,
      runtime_next = NextUnexpected,
      runtime_done = DoneUnexpected,
      runtime_error = JUndefined,
      ctx_options = [''callDoneOnEnd'' \<mapsto> JBool True] ++
                    (case options cfg of None \<Rightarrow> Map.empty | Some m \<Rightarrow> m),
      captured_next = None,
      captured_done = None,
      run = (\<lambda>r. fresh_run),
      trace = []\<rparr>"

definition run_handler :: "config \<Rightarrow> bool \<Rightarrow> iters \<Rightarrow> state \<Rightarrow> completion \<times> iters \<times> state" where
  "run_handler cfg primaryChainWasAborted its s =
     (case pagesHandler cfg of
        Some acts \<Rightarrow>
          if primaryChainWasAborted then (Returned, no_adv, emit NotExecutingHandler s)
          else
            (case run_actions cfg Handler acts its
                    (emit (Invoked Handler (runtime_error s)) (emit ExecutingHandler s)) of
               (Threw e, n, s1) \<Rightarrow> (Threw e, n, s1)
             | (Returned, n, s1) \<Rightarrow> (Returned, n, emit FinishedHandler s1))
      | None \<Rightarrow> (Returned, no_adv, emit NoHandler s))"

definition send_if_unsent :: "state \<Rightarrow> completion \<times> state" where
  "send_if_unsent s =
     (if \<not> writableEnded s \<and> \<not> headersSent s then
        (case sendNotImplemented (emit SendingNotImplemented s) of
           (Threw e, s1) \<Rightarrow> (Threw e, s1)
         | (Returned, s1) \<Rightarrow> (Returned, emit Done s1))
      else (Returned, emit Done s))"

text \<open>
  The run over a new iterator of \<open>use\<close>, and then the handler: the first two
  statements of the \<open>try\<close>.
\<close>

definition primary_chain :: "config \<Rightarrow> response \<Rightarrow> (jsval + bool) \<times> iters \<times> state" where
  "primary_chain cfg res =
     startPullingChain cfg Primary no_adv
       (emit SelectingFirstPrimary (emit Begin (init_state cfg res)))"

definition chain_and_handler :: "config \<Rightarrow> response \<Rightarrow> completion \<times> iters \<times> state" where
  "chain_and_handler cfg res =
     (case primary_chain cfg res of
        (Inl e, its, s) \<Rightarrow> (Threw e, its, emit ErrorInPrimary s)
      | (Inr primaryChainWasAborted, its, s) \<Rightarrow>
          (case run_handler cfg primaryChainWasAborted its s of
             (c, n, s1) \<Rightarrow> (c, advance n its, s1)))"

definition try_block :: "config \<Rightarrow> response \<Rightarrow> completion \<times> iters \<times> state" where
  "try_block cfg res =
     (case chain_and_handler cfg res of
        (Threw e, its, s) \<Rightarrow> (Threw e, its, s)
      | (Returned, its, s) \<Rightarrow> (case send_if_unsent s of (c, s1) \<Rightarrow> (c, its, s1)))"

text \<open>
  The \<open>catch\<close> of the handler, with its \<open>finally\<close>: \<open>handling\<close> stores the thrown
  value in \<open>runtime.error\<close>, \<open>error_chain\<close> is the run over a new iterator of
  \<open>useOnError\<close>.
\<close>

definition handling :: "jsval \<Rightarrow> state \<Rightarrow> state" where
  "handling error s = (emit (AttemptingToHandle error) s)\<lparr>runtime_error := error\<rparr>"

definition error_chain :: "config \<Rightarrow> iters \<Rightarrow> state \<Rightarrow> (jsval + bool) \<times> iters \<times> state" where
  "error_chain cfg its s =
     startPullingChain cfg ErrorChain (its(ErrorChain := 0)) (emit SelectingFirstError s)"

definition catch_block :: "config \<Rightarrow> jsval \<Rightarrow> iters \<Rightarrow> state \<Rightarrow> outcome \<times> state" where
  "catch_block cfg error its s =
     (let s1 = handling error s in
      case useOnError cfg of
        Some ec \<Rightarrow>
          (case error_chain cfg its s1 of
             (Inl subError, n, s2) \<Rightarrow>
               (Rejected subError,
                emit DoneWithErrors (emit ThrowingUnhandled (emit (ErrorInErrorChain subError) s2)))
           | (Inr b, n, s2) \<Rightarrow>
               if \<not> writableEnded s2 \<and> \<not> headersSent s2
               then (Rejected error, emit DoneWithErrors (emit ThrowingUnhandled s2))
               else (Resolved, emit DoneWithErrors s2))
      | None \<Rightarrow>
          (Rejected error,
           emit DoneWithErrors (emit ThrowingUnhandled (emit NoErrorHandlers s1))))"

definition request :: "config \<Rightarrow> response \<Rightarrow> outcome \<times> state" where
  "request cfg res =
     (case try_block cfg res of
        (Returned, its, s) \<Rightarrow> (Resolved, s)
      | (Threw e, its, s) \<Rightarrow> catch_block cfg e its s)"

text \<open>
  The run of the error handling chain of a request, when the \<open>try\<close> throws and
  \<open>useOnError\<close> was supplied.
\<close>

definition error_run :: "config \<Rightarrow> response \<Rightarrow> ((jsval + bool) \<times> iters \<times> state) option" where
  "error_run cfg res =
     (case try_block cfg res of
        (Returned, its, s) \<Rightarrow> None
      | (Threw e, its, s) \<Rightarrow>
          (case useOnError cfg of
             None \<Rightarrow> None
           | Some ec \<Rightarrow> Some (error_chain cfg its (handling e s))))"

text \<open>What the returned handler closes over, and \<open>withMiddleware\<close> itself.\<close>

definition closure :: "action list option \<Rightarrow> params \<Rightarrow> config" where
  "closure handler p =
     \<lparr>descriptor = descriptor p, use = use p, useOnError = useOnError p,
      options = options p, pagesHandler = handler\<rparr>"

definition withMiddleware :: "action list option \<Rightarrow> params \<Rightarrow> response \<Rightarrow> outcome \<times> state" where
  "withMiddleware handler p = request (closure handler p)"

subsection \<open>\<open>middlewareFactory\<close>\<close>

record factory_defaults =
  defaultUse :: "entry list"
  defaultUseOnError :: "entry list option"
  defaultOptions :: "(string \<rightharpoonup> jsval) option"

record factory_params =
  descriptor' :: "string option"
  prependUse :: "entry list option"
  appendUse :: "entry list option"
  prependUseOnError :: "entry list option"
  appendUseOnError :: "entry list option"
  passedOptions :: "(string \<rightharpoonup> jsval) option"

text \<open>\<open>xs || []\<close> for an array or undefined, and the spread of an object or undefined.\<close>

definition or_empty :: "'a list option \<Rightarrow> 'a list" where
  "or_empty xs = (case xs of None \<Rightarrow> [] | Some ys \<Rightarrow> ys)"

definition spread :: "(string \<rightharpoonup> jsval) option \<Rightarrow> (string \<rightharpoonup> jsval)" where
  "spread m = (case m of None \<Rightarrow> Map.empty | Some f \<Rightarrow> f)"

text \<open>The argument that the function returned by \<open>middlewareFactory\<close> gives to \<open>withMiddleware\<close>.\<close>

definition factory_args :: "factory_defaults \<Rightarrow> factory_params \<Rightarrow> params" where
  "factory_args d p =
     \<lparr>descriptor = descriptor' p,
      use = or_empty (prependUse p) @ defaultUse d @ or_empty (appendUse p),
      useOnError = Some (or_empty (prependUseOnError p) @ or_empty (defaultUseOnError d)
                         @ or_empty (appendUseOnError p)),
      options = Some (spread (defaultOptions d) ++ spread (passedOptions p))\<rparr>"

definition middlewareFactory ::
  "factory_defaults \<Rightarrow> action list option \<Rightarrow> factory_params \<Rightarrow> response \<Rightarrow> outcome \<times> state" where
  "middlewareFactory d handler p = withMiddleware handler (factory_args d p)"


text \<open>What the handler of a factory closes over.\<close>

definition factory_config :: "factory_defaults \<Rightarrow> action list option \<Rightarrow> factory_params \<Rightarrow> config" where
  "factory_config d h p = closure h (factory_args d p)"

section \<open>Invariants of the chain driver\<close>

text \<open>
  Most properties of a request are invariants of the state that every step of the chain
  driver keeps. \<open>driver_invariant\<close> reduces such a property to the single steps: the
  three functions keep \<open>I\<close> when the steps do, where \<open>g\<close> says which runs may still pull
  and \<open>ok\<close> which effects the callbacks are known to be limited to.
\<close>

lemmas state_defs = emit_def aborted_def completed_def pulled_def set_aborted_def
  set_completed_def set_ran_def set_pulled_def rebind_def

lemma aborted_simps [simp]:
  "aborted r (emit ev s) = aborted r s"
  "aborted r (rebind r' i s) = aborted r s"
  "aborted r (set_pulled r' i b s) = aborted r s"
  "aborted r (set_ran r' s) = aborted r s"
  "aborted r (set_completed r' s) = aborted r s"
  "aborted r (set_aborted r' s) = (r = r' \<or> aborted r s)"
  by (auto simp: state_defs)

lemma completed_simps [simp]:
  "completed r (emit ev s) = completed r s"
  "completed r (rebind r' i s) = completed r s"
  "completed r (set_pulled r' i b s) = completed r s"
  "completed r (set_ran r' s) = completed r s"
  "completed r (set_aborted r' s) = completed r s"
  "completed r (set_completed r' s) = (r = r' \<or> completed r s)"
  by (auto simp: state_defs)

definition callable :: "next_closure \<Rightarrow> state \<Rightarrow> bool" where
  "callable c s \<longleftrightarrow> runtime_next s = c \<or> captured_next s = Some c"

definition effects_ok :: "(effect \<Rightarrow> bool) \<Rightarrow> action list \<Rightarrow> bool" where
  "effects_ok ok acts \<longleftrightarrow> (\<forall>e. Effect e \<in> set acts \<longrightarrow> ok e)"

definition who_ok :: "(chain_id \<Rightarrow> bool) \<Rightarrow> who \<Rightarrow> bool" where
  "who_ok g w = (case w of Middleware r i \<Rightarrow> g r | Handler \<Rightarrow> True)"

fun driver_log :: "event \<Rightarrow> bool" where
  "driver_log WarnNonFunction = True"
| "driver_log (AbortedManually r) = True"
| "driver_log (SelectingNext r) = True"
| "driver_log (NoMoreMiddleware r) = True"
| "driver_log (Deactivated r) = True"
| "driver_log WarnNextAborted = True"
| "driver_log (NextManual r) = True"
| "driver_log WarnNextFinished = True"
| "driver_log ev = False"

lemma pullChain_exhausted:
  "\<not> its r < length (chain_of cfg r) \<Longrightarrow>
   pullChain cfg r its s =
     (let s1 = rebind r (its r) (set_pulled r (its r) False s);
          s2 = emit (NoMoreMiddleware r) s1;
          s3 = (if \<not> completed r s2 then emit (Deactivated r) s2 else s2)
      in (Returned, no_adv, set_completed r s3))"
  by (subst pullChain.simps) (simp add: Let_def)

definition after_entry ::
  "config \<Rightarrow> chain_id \<Rightarrow> iters \<Rightarrow> completion \<times> iters \<times> state \<Rightarrow> completion \<times> iters \<times> state" where
  "after_entry cfg r its x =
     (case x of
        (Threw e, n, s2) \<Rightarrow> (Threw e, bump r n, s2)
      | (Returned, n, s2) \<Rightarrow>
          if aborted r s2 then (Returned, bump r n, emit (AbortedManually r) s2)
          else if \<not> pulled r (its r) s2 then
            (case pullChain cfg r (advance n (bump r its)) (emit (SelectingNext r) s2) of
               (c, m, s3) \<Rightarrow> (c, advance m (bump r n), s3))
          else (Returned, bump r n, s2))"

definition run_entry :: "config \<Rightarrow> chain_id \<Rightarrow> iters \<Rightarrow> state \<Rightarrow> completion \<times> iters \<times> state" where
  "run_entry cfg r its s =
     (let i = its r; s1 = rebind r i (set_pulled r i False s) in
      case chain_of cfg r ! i of
        Fn acts \<Rightarrow>
          (case run_actions cfg (Middleware r i) acts (bump r its)
                  (emit (Invoked (Middleware r i) (runtime_error s1))
                     (emit (ExecutingMiddleware r) s1)) of
             (Threw e, n, s2) \<Rightarrow> (Threw e, n, s2)
           | (Returned, n, s2) \<Rightarrow> (Returned, n, set_ran r s2))
      | NotFn \<Rightarrow> (Returned, no_adv, emit WarnNonFunction s1))"

lemma pullChain_entry:
  "its r < length (chain_of cfg r) \<Longrightarrow>
   pullChain cfg r its s = after_entry cfg r its (run_entry cfg r its s)"
  by (subst pullChain.simps) (simp add: Let_def after_entry_def run_entry_def)

lemma driver_invariant:
  fixes I :: "state \<Rightarrow> bool" and g :: "chain_id \<Rightarrow> bool" and ok :: "effect \<Rightarrow> bool"
  assumes enter: "\<And>r i s. I s \<Longrightarrow> g r \<Longrightarrow> \<not> aborted r s \<Longrightarrow>
                    I (rebind r i (set_pulled r i False s))"
      and invoke: "\<And>r i s. I s \<Longrightarrow> g r \<Longrightarrow> \<not> aborted r s \<Longrightarrow>
                    I (emit (Invoked (Middleware r i) (runtime_error s)) (emit (ExecutingMiddleware r) s))"
      and ran: "\<And>r s. I s \<Longrightarrow> I (set_ran r s)"
      and logs: "\<And>ev s. I s \<Longrightarrow> driver_log ev \<Longrightarrow> I (emit ev s)"
      and complete: "\<And>r s. I s \<Longrightarrow> g r \<Longrightarrow> \<not> aborted r s \<Longrightarrow> I (set_completed r s)"
      and pull: "\<And>r i s. I s \<Longrightarrow> \<not> aborted r s \<Longrightarrow> \<not> completed r s \<Longrightarrow> callable (NextOf r i) s \<Longrightarrow>
                    I (set_pulled r i True s) \<and> g r"
      and perf: "\<And>w e s. I s \<Longrightarrow> who_ok g w \<Longrightarrow> ok e \<Longrightarrow> I (snd (perform w e s))"
      and chains: "\<And>r acts. g r \<Longrightarrow> Fn acts \<in> set (chain_of cfg r) \<Longrightarrow> effects_ok ok acts"
  shows "I s \<Longrightarrow> g r \<Longrightarrow> \<not> aborted r s \<Longrightarrow> I (snd (snd (pullChain cfg r its s)))"
    and "I s \<Longrightarrow> callable c s \<Longrightarrow> I (snd (snd (call_next cfg c its s)))"
    and "I s \<Longrightarrow> who_ok g w \<Longrightarrow> effects_ok ok acts \<Longrightarrow> I (snd (snd (run_actions cfg w acts its s)))"
  using chains
proof (induction cfg r its s and cfg c its s and cfg w acts its s
       rule: pullChain_call_next_run_actions.induct)
  case (1 cfg r its s)
  define i where "i = its r"
  define s1 where "s1 = rebind r i (set_pulled r i False s)"
  have I1: "I s1" and na1: "\<not> aborted r s1"
    using 1 enter by (simp_all add: s1_def)
  show ?case
  proof (cases "i < length (chain_of cfg r)")
    case False
    then show ?thesis
      using I1 na1 "1.prems"
      by (simp add: pullChain_exhausted Let_def i_def s1_def logs complete)
  next
    case True
    obtain c n s2 where re: "run_entry cfg r its s = (c, n, s2)"
      by (cases "run_entry cfg r its s")
    have I2: "I s2"
    proof (cases "chain_of cfg r ! i")
      case NotFn
      then show ?thesis
        using re I1 by (auto simp: run_entry_def Let_def i_def s1_def logs)
    next
      case (Fn acts)
      have "Fn acts \<in> set (chain_of cfg r)"
        using True Fn nth_mem by fastforce
      then have eo: "effects_ok ok acts"
        using "1.prems" by blast
      have "I (snd (snd (run_actions cfg (Middleware r i) acts (bump r its)
                (emit (Invoked (Middleware r i) (runtime_error s1)) (emit (ExecutingMiddleware r) s1)))))"
        using "1.IH"(1) [OF i_def s1_def True Fn] invoke [OF I1 _ na1] "1.prems" eo
        by (simp add: who_ok_def)
      then show ?thesis
        using re Fn ran
        by (auto simp: run_entry_def Let_def i_def s1_def split: prod.splits completion.splits)
    qed
    show ?thesis
    proof (cases c)
      case (Threw e)
      then show ?thesis
        using True re I2 by (simp add: pullChain_entry i_def after_entry_def)
    next
      case Returned
      show ?thesis
      proof (cases "\<not> aborted r s2 \<and> \<not> pulled r i s2")
        case False
        then show ?thesis
          using True re I2 Returned logs
          by (auto simp: pullChain_entry i_def after_entry_def)
      next
        case go: True
        have eq: "(c, n, s2) = (case chain_of cfg r ! i of
            Fn acts \<Rightarrow>
              case run_actions cfg (Middleware r i) acts (bump r its)
                    (emit (Invoked (Middleware r i) (runtime_error s1))
                      (emit (ExecutingMiddleware r) s1)) of
              (Returned, n, s2) \<Rightarrow> (Returned, n, set_ran r s2)
              | (Threw e, n, s2) \<Rightarrow> (Threw e, n, s2)
            | NotFn \<Rightarrow> (Returned, no_adv, emit WarnNonFunction s1))"
          using re unfolding run_entry_def Let_def i_def s1_def by simp
        have "I (snd (snd (pullChain cfg r (advance n (bump r its)) (emit (SelectingNext r) s2))))"
          using "1.IH"(2) [OF i_def s1_def True eq Returned refl] go I2 logs "1.prems"
          by simp
        then show ?thesis
          using True re Returned go
          by (auto simp: pullChain_entry i_def after_entry_def split: prod.splits)
      qed
    qed
  qed
next
  case (2 cfg c its s)
  show ?case
  proof (cases c)
    case NextUnexpected
    then show ?thesis using 2 by (simp add: call_next.simps)
  next
    case (NextOf r i)
    show ?thesis
    proof (cases "\<not> completed r s \<and> \<not> aborted r s")
      case False
      then show ?thesis
        using 2 NextOf logs by (auto simp: call_next.simps)
    next
      case True
      then have p: "I (set_pulled r i True s)" "g r"
        using pull [of s r i] 2 NextOf by simp_all
      have "I (snd (snd (pullChain cfg r its (emit (NextManual r) (set_pulled r i True s)))))"
        using "2.IH" [OF NextOf] True p logs "2.prems" by simp
      then show ?thesis
        using NextOf True by (simp add: call_next.simps)
    qed
  qed
next
  case (3 cfg w its s)
  then show ?case by simp
next
  case (4 cfg w a acts its s)
  define x where "x = (case a of AwaitNext \<Rightarrow> call_next cfg (runtime_next s) its s
            | AwaitCapturedNext \<Rightarrow>
                case captured_next s of
                None \<Rightarrow>
                  (Threw (JError ''next is not a function''), no_adv, s)
                | Some c \<Rightarrow> call_next cfg c its s
            | Effect e \<Rightarrow> case perform w e s of (c, s1) \<Rightarrow> (c, no_adv, s1))"
  obtain c n s1 where x: "x = (c, n, s1)" by (cases x)
  have eo: "effects_ok ok acts" and oka: "\<And>e. a = Effect e \<Longrightarrow> ok e"
    using "4.prems" by (auto simp: effects_ok_def)
  have I1: "I s1"
  proof (cases a)
    case AwaitNext
    then show ?thesis
      using "4.IH"(1) "4.prems" x by (simp add: x_def callable_def)
  next
    case AwaitCapturedNext
    then show ?thesis
      using "4.IH"(2) "4.prems" x
      by (cases "captured_next s") (auto simp: x_def callable_def)
  next
    case (Effect e)
    then show ?thesis
      using perf [of s w e] "4.prems" oka x
      by (auto simp: x_def split: prod.splits)
  qed
  show ?case
  proof (cases c)
    case (Threw e)
    then show ?thesis using x I1 by (simp add: x_def [symmetric])
  next
    case Returned
    have "I (snd (snd (run_actions cfg w acts (advance n its) s1)))"
      using "4.IH"(3) [OF x [unfolded x_def, symmetric] Returned refl] I1 "4.prems" eo by simp
    then show ?thesis
      using x Returned by (auto simp: x_def [symmetric] split: prod.splits)
  qed
qed


abbreviation st :: "'a \<times> iters \<times> state \<Rightarrow> state" where
  "st x \<equiv> snd (snd x)"

lemma end_through_invariant:
  assumes host_end: "\<And>s. I s \<Longrightarrow> I (s\<lparr>writableEnded := True, headersSent := True\<rparr>)"
      and calling: "\<And>r s. I s \<Longrightarrow> I (emit (CallingDoneAfterEnd r) s)"
      and skipped: "\<And>r s. I s \<Longrightarrow> I (emit (SkippedDoneAfterEnd r) s)"
      and dbody: "\<And>r s. I s \<Longrightarrow> I (done_body r s)"
  shows "I s \<Longrightarrow> I (snd (end_through ws s))"
proof (induction ws)
  case Nil
  then show ?case by (simp add: host_end)
next
  case (Cons r ws)
  obtain c s1 where e: "end_through ws s = (c, s1)" by (cases "end_through ws s")
  then have "I s1" using Cons by simp
  then show ?case
    using e calling [of s1 r] skipped [of s1 r] dbody
    by (auto simp: Let_def call_done_def split: completion.splits done_closure.splits)
qed

lemma perform_invariant:
  assumes dbody: "\<And>r s. I s \<Longrightarrow> I (done_body r s)"
      and capture: "\<And>s. I s \<Longrightarrow> I (s\<lparr>captured_next := Some (runtime_next s),
                                          captured_done := Some (runtime_done s)\<rparr>)"
      and host_end: "\<And>s. I s \<Longrightarrow> I (s\<lparr>writableEnded := True, headersSent := True\<rparr>)"
      and calling: "\<And>r s. I s \<Longrightarrow> I (emit (CallingDoneAfterEnd r) s)"
      and skipped: "\<And>r s. I s \<Longrightarrow> I (emit (SkippedDoneAfterEnd r) s)"
      and flush: "\<And>s. I s \<Longrightarrow> I (s\<lparr>headersSent := True\<rparr>)"
      and saw: "\<And>s. I s \<Longrightarrow> I (emit (Saw w (runtime_error s)) s)"
      and setopt: "\<And>k v s. I s \<Longrightarrow> ok (SetOption k v) \<Longrightarrow> I (s\<lparr>ctx_options := (ctx_options s)(k \<mapsto> v)\<rparr>)"
      and delopt: "\<And>k s. I s \<Longrightarrow> ok (DeleteOption k) \<Longrightarrow> I (s\<lparr>ctx_options := (ctx_options s)(k := None)\<rparr>)"
  shows "I s \<Longrightarrow> ok e \<Longrightarrow> I (snd (perform w e s))"
proof -
  assume I: "I s" and ok: "ok e"
  have E: "I (snd (end_through ws s))" for ws
    using end_through_invariant [of I, OF host_end calling skipped dbody I] .
  show ?thesis
    using I ok E [of "end_wrappers s"] dbody capture flush saw setopt delopt
    by (cases e) (auto simp: perform_def call_done_def res_end_def
        split: done_closure.splits option.splits)
qed

text \<open>A flag of a run, once set, stays set.\<close>

lemma done_body_aborted [simp]: "aborted r (done_body r' s) = (aborted r s \<or> (r = r' \<and> \<not> completed r s))"
  by (auto simp: done_body_def)

lemma done_body_completed [simp]: "completed r (done_body r' s) = completed r s"
  by (auto simp: done_body_def)

lemma aborted_upd [simp]:
  "aborted r (s\<lparr>writableEnded := a\<rparr>) = aborted r s"
  "aborted r (s\<lparr>headersSent := a\<rparr>) = aborted r s"
  "aborted r (s\<lparr>captured_next := cn\<rparr>) = aborted r s"
  "aborted r (s\<lparr>captured_done := cd\<rparr>) = aborted r s"
  "aborted r (s\<lparr>ctx_options := m\<rparr>) = aborted r s"
  "aborted r (s\<lparr>statusCode := k\<rparr>) = aborted r s"
  "aborted r (s\<lparr>runtime_error := v\<rparr>) = aborted r s"
  "aborted r (s\<lparr>end_wrappers := ws\<rparr>) = aborted r s"
  by (simp_all add: aborted_def)

lemma completed_upd [simp]:
  "completed r (s\<lparr>writableEnded := a\<rparr>) = completed r s"
  "completed r (s\<lparr>headersSent := a\<rparr>) = completed r s"
  "completed r (s\<lparr>captured_next := cn\<rparr>) = completed r s"
  "completed r (s\<lparr>captured_done := cd\<rparr>) = completed r s"
  "completed r (s\<lparr>ctx_options := m\<rparr>) = completed r s"
  "completed r (s\<lparr>statusCode := k\<rparr>) = completed r s"
  "completed r (s\<lparr>runtime_error := v\<rparr>) = completed r s"
  "completed r (s\<lparr>end_wrappers := ws\<rparr>) = completed r s"
  by (simp_all add: completed_def)

lemma perform_aborted: "aborted r s \<Longrightarrow> aborted r (snd (perform w e s))"
  by (rule perform_invariant [where I = "aborted r" and ok = "\<lambda>e. True"]) simp_all

lemma perform_completed: "completed r s \<Longrightarrow> completed r (snd (perform w e s))"
  by (rule perform_invariant [where I = "completed r" and ok = "\<lambda>e. True"]) simp_all

lemma who_ok_all [simp]: "who_ok (\<lambda>r. True) w"
  by (simp add: who_ok_def split: who.splits)

lemma aborted_mono:
  "aborted r0 s \<Longrightarrow> \<not> aborted r s \<Longrightarrow> aborted r0 (st (pullChain cfg r its s))"
  "aborted r0 s \<Longrightarrow> callable c s \<Longrightarrow> aborted r0 (st (call_next cfg c its s))"
  "aborted r0 s \<Longrightarrow> aborted r0 (st (run_actions cfg w acts its s))"
proof -
  note R = driver_invariant [where I = "aborted r0" and g = "\<lambda>r. True" and ok = "\<lambda>e. True" and cfg = cfg]
  show "aborted r0 s \<Longrightarrow> \<not> aborted r s \<Longrightarrow> aborted r0 (st (pullChain cfg r its s))"
    by (rule R(1)) (simp_all add: perform_aborted effects_ok_def)
  show "aborted r0 s \<Longrightarrow> callable c s \<Longrightarrow> aborted r0 (st (call_next cfg c its s))"
    by (rule R(2)) (simp_all add: perform_aborted effects_ok_def)
  show  "aborted r0 s \<Longrightarrow> aborted r0 (st (run_actions cfg w acts its s))"
    by (rule R(3)) (simp_all add: perform_aborted effects_ok_def who_ok_def)
qed

lemma completed_mono:
  "completed r0 s \<Longrightarrow> \<not> aborted r s \<Longrightarrow> completed r0 (st (pullChain cfg r its s))"
  "completed r0 s \<Longrightarrow> callable c s \<Longrightarrow> completed r0 (st (call_next cfg c its s))"
  "completed r0 s \<Longrightarrow> completed r0 (st (run_actions cfg w acts its s))"
proof -
  note R = driver_invariant [where I = "completed r0" and g = "\<lambda>r. True" and ok = "\<lambda>e. True" and cfg = cfg]
  show "completed r0 s \<Longrightarrow> \<not> aborted r s \<Longrightarrow> completed r0 (st (pullChain cfg r its s))"
    by (rule R(1)) (simp_all add: perform_completed effects_ok_def)
  show "completed r0 s \<Longrightarrow> callable c s \<Longrightarrow> completed r0 (st (call_next cfg c its s))"
    by (rule R(2)) (simp_all add: perform_completed effects_ok_def)
  show  "completed r0 s \<Longrightarrow> completed r0 (st (run_actions cfg w acts its s))"
    by (rule R(3)) (simp_all add: perform_completed effects_ok_def who_ok_def)
qed

definition finished :: "chain_id \<Rightarrow> state \<Rightarrow> bool" where
  "finished r s \<longleftrightarrow> aborted r s \<or> completed r s"

text \<open>Every \<open>chainWasPulled\<close> that a call set belongs to a run that has finished.\<close>

definition pulls_sound :: "state \<Rightarrow> state \<Rightarrow> bool" where
  "pulls_sound s s' \<longleftrightarrow> (\<forall>r i. pulled r i s' \<longrightarrow> pulled r i s \<or> finished r s')"

lemma pulled_simps [simp]:
  "pulled r i (emit ev s) = pulled r i s"
  "pulled r i (rebind r' j s) = pulled r i s"
  "pulled r i (set_ran r' s) = pulled r i s"
  "pulled r i (set_completed r' s) = pulled r i s"
  "pulled r i (set_aborted r' s) = pulled r i s"
  "pulled r i (set_pulled r' j b s) = (if r = r' \<and> i = j then b else pulled r i s)"
  by (auto simp: state_defs)

lemma finished_simps [simp]:
  "finished r (emit ev s) = finished r s"
  "finished r (rebind r' i s) = finished r s"
  "finished r (set_pulled r' i b s) = finished r s"
  "finished r (set_ran r' s) = finished r s"
  by (simp_all add: finished_def)

lemma finished_mono:
  "finished r0 s \<Longrightarrow> \<not> aborted r s \<Longrightarrow> finished r0 (st (pullChain cfg r its s))"
  "finished r0 s \<Longrightarrow> callable c s \<Longrightarrow> finished r0 (st (call_next cfg c its s))"
  "finished r0 s \<Longrightarrow> finished r0 (st (run_actions cfg w acts its s))"
  using aborted_mono [of r0 s] completed_mono [of r0 s] by (auto simp: finished_def)

lemma pulls_sound_refl [simp]: "pulls_sound s s"
  by (simp add: pulls_sound_def)

lemma pulls_sound_trans:
  "pulls_sound a b \<Longrightarrow> pulls_sound b c \<Longrightarrow> (\<And>r. finished r b \<Longrightarrow> finished r c) \<Longrightarrow> pulls_sound a c"
  unfolding pulls_sound_def by blast

lemma perform_pulled: "pulled r i (snd (perform w e s)) = pulled r i s"
proof -
  have "\<forall>r i. pulled r i (snd (perform w e s)) = pulled r i s0" if "\<forall>r i. pulled r i s = pulled r i s0" for s0
    by (rule perform_invariant [where I = "\<lambda>s. \<forall>r i. pulled r i s = pulled r i s0" and ok = "\<lambda>e. True"])
       (simp_all add: that done_body_def, simp_all add: pulled_def)
  then show ?thesis by blast
qed

lemma returns_finished:
  "fst (pullChain cfg r its s) = Returned \<Longrightarrow>
     finished r (st (pullChain cfg r its s)) \<and> pulls_sound s (st (pullChain cfg r its s))"
  "callable c s \<Longrightarrow> fst (call_next cfg c its s) = Returned \<Longrightarrow> pulls_sound s (st (call_next cfg c its s))"
  "fst (run_actions cfg w acts its s) = Returned \<Longrightarrow> pulls_sound s (st (run_actions cfg w acts its s))"
proof (induction cfg r its s and cfg c its s and cfg w acts its s
       rule: pullChain_call_next_run_actions.induct)
  case (1 cfg r its s)
  define i where "i = its r"
  define s1 where "s1 = rebind r i (set_pulled r i False s)"
  define s1' where "s1' = emit (Invoked (Middleware r i) (runtime_error s1)) (emit (ExecutingMiddleware r) s1)"
  have ps1: "pulls_sound s s1'" and np1: "\<not> pulled r i s1'"
    by (simp_all add: pulls_sound_def s1'_def s1_def)
  show ?case
  proof (cases "i < length (chain_of cfg r)")
    case False
    then show ?thesis
      by (simp add: pullChain_exhausted Let_def i_def finished_def pulls_sound_def)
  next
    case True
    obtain c n s2 where re: "run_entry cfg r its s = (c, n, s2)"
      by (cases "run_entry cfg r its s")
    have eq: "(c, n, s2) = (case chain_of cfg r ! i of
            Fn acts \<Rightarrow>
              case run_actions cfg (Middleware r i) acts (bump r its)
                    (emit (Invoked (Middleware r i) (runtime_error s1))
                      (emit (ExecutingMiddleware r) s1)) of
              (Returned, n, s2) \<Rightarrow> (Returned, n, set_ran r s2)
              | (Threw e, n, s2) \<Rightarrow> (Threw e, n, s2)
            | NotFn \<Rightarrow> (Returned, no_adv, emit WarnNonFunction s1))"
      using re unfolding run_entry_def Let_def i_def s1_def by simp
    have pc: "pullChain cfg r its s = after_entry cfg r its (c, n, s2)"
      using True re by (simp add: pullChain_entry i_def)
    show ?thesis
    proof (cases c)
      case (Threw e)
      then show ?thesis using "1.prems" pc by (simp add: after_entry_def)
    next
      case Returned
      have s2: "pulls_sound s s2 \<and> (pulled r i s2 \<longrightarrow> finished r s2)"
      proof (cases "chain_of cfg r ! i")
        case NotFn
        then show ?thesis
          using eq by (simp add: pulls_sound_def s1_def)
      next
        case (Fn acts)
        define x where "x = run_actions cfg (Middleware r i) acts (bump r its) s1'"
        have x: "fst x = Returned" "s2 = set_ran r (st x)"
          using eq Fn Returned
          by (auto simp: x_def s1'_def split: prod.splits completion.splits)
        have sx: "pulls_sound s1' (st x)"
          using "1.IH"(1) [OF i_def s1_def True Fn] x(1) by (simp add: x_def s1'_def)
        have mono: "finished r' s1' \<Longrightarrow> finished r' (st x)" for r'
          using finished_mono(3) by (simp add: x_def)
        have "pulls_sound s (st x)"
          using pulls_sound_trans [OF ps1 sx mono] by simp
        moreover have "pulled r i (st x) \<longrightarrow> finished r (st x)"
          using sx np1 unfolding pulls_sound_def by blast
        ultimately show ?thesis
          using x(2) unfolding pulls_sound_def by simp
      qed
      show ?thesis
      proof (cases "\<not> aborted r s2 \<and> \<not> pulled r i s2")
        case False
        then show ?thesis
          using pc Returned s2
          by (auto simp: after_entry_def i_def finished_def pulls_sound_def)
      next
        case go: True
        define y where "y = pullChain cfg r (advance n (bump r its)) (emit (SelectingNext r) s2)"
        have py: "pullChain cfg r its s = (fst y, advance (fst (snd y)) (bump r n), st y)"
          using pc Returned go by (simp add: after_entry_def i_def y_def split: prod.splits)
        then have "fst y = Returned"
          using "1.prems" by simp
        then have fy: "finished r (st y)" and sy: "pulls_sound (emit (SelectingNext r) s2) (st y)"
          using "1.IH"(2) [OF i_def s1_def True eq Returned refl] go by (simp_all add: y_def)
        have mono: "finished r' s2 \<Longrightarrow> finished r' (st y)" for r'
          using finished_mono(1) [of r' "emit (SelectingNext r) s2" r cfg] go by (simp add: y_def)
        have "pulls_sound s (st y)"
          using s2 sy mono unfolding pulls_sound_def by (metis pulled_simps(1))
        then show ?thesis
          using fy py by simp
      qed
    qed
  qed
next
  case (2 cfg c its s)
  show ?case
  proof (cases c)
    case NextUnexpected
    then show ?thesis using 2 by (simp add: call_next.simps)
  next
    case (NextOf r i)
    show ?thesis
    proof (cases "\<not> completed r s \<and> \<not> aborted r s")
      case False
      then show ?thesis
        using NextOf by (auto simp: call_next.simps pulls_sound_def)
    next
      case True
      define y where "y = pullChain cfg r its (emit (NextManual r) (set_pulled r i True s))"
      have cn: "call_next cfg c its s = y"
        using NextOf True by (simp add: call_next.simps y_def)
      then have "fst y = Returned" using "2.prems" by simp
      then have "finished r (st y)" "pulls_sound (emit (NextManual r) (set_pulled r i True s)) (st y)"
        using "2.IH" [OF NextOf] True by (simp_all add: y_def)
      then show ?thesis
        unfolding cn pulls_sound_def by (auto split: if_splits)
    qed
  qed
next
  case (3 cfg w its s)
  then show ?case by simp
next
  case (4 cfg w a acts its s)
  define x where "x = (case a of AwaitNext \<Rightarrow> call_next cfg (runtime_next s) its s
            | AwaitCapturedNext \<Rightarrow>
                case captured_next s of
                None \<Rightarrow>
                  (Threw (JError ''next is not a function''), no_adv, s)
                | Some c \<Rightarrow> call_next cfg c its s
            | Effect e \<Rightarrow> case perform w e s of (c, s1) \<Rightarrow> (c, no_adv, s1))"
  obtain c n s1 where x: "x = (c, n, s1)" by (cases x)
  have ra: "run_actions cfg w (a # acts) its s =
        (case x of (Threw e, n, s1) \<Rightarrow> (Threw e, n, s1)
         | (Returned, n, s1) \<Rightarrow> (case run_actions cfg w acts (advance n its) s1 of
             (c, m, s2) \<Rightarrow> (c, advance m n, s2)))"
    by (simp add: x_def)
  then have cR: "c = Returned"
    using "4.prems" x by (cases c) simp_all
  define y where "y = run_actions cfg w acts (advance n its) s1"
  have ry: "run_actions cfg w (a # acts) its s = (fst y, advance (fst (snd y)) n, st y)"
    using ra x cR by (simp add: y_def split: prod.splits)
  then have "fst y = Returned" using "4.prems" by simp
  then have sy: "pulls_sound s1 (st y)"
    using "4.IH"(3) [OF x [unfolded x_def, symmetric] cR refl] by (simp add: y_def)
  have mono: "finished r' s1 \<Longrightarrow> finished r' (st y)" for r'
    using finished_mono(3) by (simp add: y_def)
  have s1: "pulls_sound s s1"
  proof (cases a)
    case AwaitNext
    then show ?thesis
      using "4.IH"(1) x cR by (simp add: x_def callable_def)
  next
    case AwaitCapturedNext
    then show ?thesis
      using "4.IH"(2) x cR
      by (cases "captured_next s") (auto simp: x_def callable_def)
  next
    case (Effect e)
    then have "s1 = snd (perform w e s)"
      using x by (auto simp: x_def split: prod.splits)
    then show ?thesis
      by (simp add: pulls_sound_def perform_pulled)
  qed
  show ?case
    unfolding ry using pulls_sound_trans [OF s1 sy mono] by simp
qed



definition keeps :: "(state \<Rightarrow> bool) \<Rightarrow> (chain_id \<Rightarrow> bool) \<Rightarrow> (effect \<Rightarrow> bool) \<Rightarrow> bool" where
  "keeps I g ok \<longleftrightarrow>
     (\<forall>r i s. I s \<longrightarrow> g r \<longrightarrow> \<not> aborted r s \<longrightarrow> I (rebind r i (set_pulled r i False s)))
   \<and> (\<forall>r i s. I s \<longrightarrow> g r \<longrightarrow> \<not> aborted r s \<longrightarrow>
         I (emit (Invoked (Middleware r i) (runtime_error s)) (emit (ExecutingMiddleware r) s)))
   \<and> (\<forall>r s. I s \<longrightarrow> I (set_ran r s))
   \<and> (\<forall>ev s. I s \<longrightarrow> driver_log ev \<longrightarrow> I (emit ev s))
   \<and> (\<forall>r s. I s \<longrightarrow> g r \<longrightarrow> \<not> aborted r s \<longrightarrow> I (set_completed r s))
   \<and> (\<forall>r i s. I s \<longrightarrow> \<not> aborted r s \<longrightarrow> \<not> completed r s \<longrightarrow> callable (NextOf r i) s \<longrightarrow>
         I (set_pulled r i True s) \<and> g r)
   \<and> (\<forall>r s. I s \<longrightarrow> I (done_body r s))
   \<and> (\<forall>s. I s \<longrightarrow> I (s\<lparr>captured_next := Some (runtime_next s),
                           captured_done := Some (runtime_done s)\<rparr>))
   \<and> (\<forall>s. I s \<longrightarrow> I (s\<lparr>writableEnded := True, headersSent := True\<rparr>))
   \<and> (\<forall>r s. I s \<longrightarrow> I (emit (CallingDoneAfterEnd r) s))
   \<and> (\<forall>r s. I s \<longrightarrow> I (emit (SkippedDoneAfterEnd r) s))
   \<and> (\<forall>s. I s \<longrightarrow> I (s\<lparr>headersSent := True\<rparr>))
   \<and> (\<forall>w s. I s \<longrightarrow> who_ok g w \<longrightarrow> I (emit (Saw w (runtime_error s)) s))
   \<and> (\<forall>k v s. I s \<longrightarrow> ok (SetOption k v) \<longrightarrow> I (s\<lparr>ctx_options := (ctx_options s)(k \<mapsto> v)\<rparr>))
   \<and> (\<forall>k s. I s \<longrightarrow> ok (DeleteOption k) \<longrightarrow> I (s\<lparr>ctx_options := (ctx_options s)(k := None)\<rparr>))"

definition chains_ok :: "(chain_id \<Rightarrow> bool) \<Rightarrow> (effect \<Rightarrow> bool) \<Rightarrow> config \<Rightarrow> bool" where
  "chains_ok g ok cfg \<longleftrightarrow> (\<forall>r acts. g r \<longrightarrow> Fn acts \<in> set (chain_of cfg r) \<longrightarrow> effects_ok ok acts)"

lemma chains_ok_all [simp]: "chains_ok g (\<lambda>e. True) cfg"
  by (simp add: chains_ok_def effects_ok_def)

lemma effects_ok_all [simp]: "effects_ok (\<lambda>e. True) acts"
  by (simp add: effects_ok_def)

lemma keeps_end_through:
  "keeps I g ok \<Longrightarrow> I s \<Longrightarrow> I (snd (end_through ws s))"
  by (rule end_through_invariant [of I]) (auto simp: keeps_def)

lemma keeps_perform:
  "keeps I g ok \<Longrightarrow> I s \<Longrightarrow> who_ok g w \<Longrightarrow> ok e \<Longrightarrow> I (snd (perform w e s))"
  by (rule perform_invariant [of I _ ok]) (auto simp: keeps_def)

lemma keeps_driver:
  assumes "keeps I g ok" and "chains_ok g ok cfg"
  shows "I s \<Longrightarrow> g r \<Longrightarrow> \<not> aborted r s \<Longrightarrow> I (st (pullChain cfg r its s))"
    and "I s \<Longrightarrow> callable c s \<Longrightarrow> I (st (call_next cfg c its s))"
    and "I s \<Longrightarrow> who_ok g w \<Longrightarrow> effects_ok ok acts \<Longrightarrow> I (st (run_actions cfg w acts its s))"
proof -
  note R = driver_invariant [where I = I and g = g and ok = ok and cfg = cfg]
  note K = assms(1) [unfolded keeps_def]
  show "I s \<Longrightarrow> g r \<Longrightarrow> \<not> aborted r s \<Longrightarrow> I (st (pullChain cfg r its s))"
    by (rule R(1)) (use K keeps_perform [OF assms(1)] assms(2) in \<open>auto simp: chains_ok_def\<close>)
  show "I s \<Longrightarrow> callable c s \<Longrightarrow> I (st (call_next cfg c its s))"
    by (rule R(2)) (use K keeps_perform [OF assms(1)] assms(2) in \<open>auto simp: chains_ok_def\<close>)
  show "I s \<Longrightarrow> who_ok g w \<Longrightarrow> effects_ok ok acts \<Longrightarrow> I (st (run_actions cfg w acts its s))"
    by (rule R(3)) (use K keeps_perform [OF assms(1)] assms(2) in \<open>auto simp: chains_ok_def\<close>)
qed

fun outer_log :: "event \<Rightarrow> bool" where
  "outer_log (Stopped r) = True"
| "outer_log (RanAtLeastOne r b) = True"
| "outer_log ErrorInPrimary = True"
| "outer_log NotExecutingHandler = True"
| "outer_log FinishedHandler = True"
| "outer_log NoHandler = True"
| "outer_log Done = True"
| "outer_log (ErrorInErrorChain e) = True"
| "outer_log ThrowingUnhandled = True"
| "outer_log DoneWithErrors = True"
| "outer_log ev = False"

definition keeps_outer :: "(state \<Rightarrow> bool) \<Rightarrow> bool" where
  "keeps_outer I \<longleftrightarrow>
     (\<forall>ev s. I s \<longrightarrow> outer_log ev \<longrightarrow> I (emit ev s))
   \<and> (\<forall>r s. I s \<longrightarrow> I (emit WarnAbortedDueToError (set_aborted r s)))
   \<and> (\<forall>s. I s \<longrightarrow> I (s\<lparr>statusCode := 501\<rparr>))"

lemma start_run_flags [simp]:
  "\<not> aborted r (start_run r s)" "\<not> completed r (start_run r s)"
  by (simp_all add: start_run_def Let_def aborted_def completed_def emit_def fresh_run_def)

lemma keeps_start:
  assumes "keeps I g ok" and "keeps_outer I" and "chains_ok g ok cfg" and "g r"
      and "I (start_run r s)"
  shows "I (st (startPullingChain cfg r its s))"
proof -
  have "I (st (pullChain cfg r its (start_run r s)))"
    using keeps_driver(1) [OF assms(1,3,5,4)] by simp
  then show ?thesis
    using assms(2)
    by (auto simp: startPullingChain_def keeps_outer_def split: prod.splits completion.splits)
qed

lemma keeps_handler:
  assumes "keeps I g ok" and "keeps_outer I" and "chains_ok g ok cfg"
      and "\<And>acts. pagesHandler cfg = Some acts \<Longrightarrow> effects_ok ok acts"
      and "I s"
      and "\<not> b \<Longrightarrow> pagesHandler cfg \<noteq> None \<Longrightarrow>
             I (emit (Invoked Handler (runtime_error s)) (emit ExecutingHandler s))"
  shows "I (st (run_handler cfg b its s))"
proof (cases "pagesHandler cfg")
  case None
  then show ?thesis
    using assms(2,5) by (simp add: run_handler_def keeps_outer_def)
next
  case (Some acts)
  show ?thesis
  proof (cases b)
    case True
    then show ?thesis
      using Some assms(2,5) by (simp add: run_handler_def keeps_outer_def)
  next
    case False
    have "I (st (run_actions cfg Handler acts its
            (emit (Invoked Handler (runtime_error s)) (emit ExecutingHandler s))))"
      using keeps_driver(3) [OF assms(1,3)] assms(4,6) Some False
      by (simp add: who_ok_def)
    then show ?thesis
      using Some False assms(2)
      by (auto simp: run_handler_def keeps_outer_def split: prod.splits completion.splits)
  qed
qed

lemma keeps_send:
  assumes "keeps I g ok" and "keeps_outer I" and "I s"
      and "\<not> writableEnded s \<Longrightarrow> \<not> headersSent s \<Longrightarrow> I (emit SendingNotImplemented s)"
  shows "I (snd (send_if_unsent s))"
proof (cases "\<not> writableEnded s \<and> \<not> headersSent s")
  case False
  then show ?thesis
    using assms(2,3) by (auto simp: send_if_unsent_def keeps_outer_def)
next
  case True
  define s1 where "s1 = (emit SendingNotImplemented s)\<lparr>statusCode := 501\<rparr>"
  have "I s1"
    using assms(2,4) True by (simp add: keeps_outer_def s1_def)
  then have I2: "I (snd (res_end s1))"
    using keeps_end_through [OF assms(1)] by (simp add: res_end_def)
  obtain c s2 where r: "res_end s1 = (c, s2)" by (cases "res_end s1")
  then have "I s2" "I (emit Done s2)"
    using I2 assms(2) by (simp_all add: keeps_outer_def)
  then show ?thesis
    using True r by (cases c) (simp_all add: send_if_unsent_def sendNotImplemented_def s1_def)
qed

text \<open>A run that returns has been aborted or has completed, and it returns which.\<close>

lemma startPullingChain_finished:
  "startPullingChain cfg r its s = (Inr b, n, s') \<Longrightarrow> finished r s' \<and> b = aborted r s'"
  "startPullingChain cfg r its s = (Inl e, n, s') \<Longrightarrow> aborted r s'"
proof -
  obtain c m s2 where p: "pullChain cfg r its (start_run r s) = (c, m, s2)"
    by (cases "pullChain cfg r its (start_run r s)")
  have f: "c = Returned \<Longrightarrow> finished r s2"
    using returns_finished(1) [of cfg r its "start_run r s"] p by simp
  show "startPullingChain cfg r its s = (Inr b, n, s') \<Longrightarrow> finished r s' \<and> b = aborted r s'"
    using p f by (cases c) (auto simp: startPullingChain_def)
  show "startPullingChain cfg r its s = (Inl e, n, s') \<Longrightarrow> aborted r s'"
    using p by (cases c) (auto simp: startPullingChain_def)
qed

lemma keeps_try:
  assumes "keeps I g ok" and "keeps_outer I" and "chains_ok g ok cfg" and "g Primary"
      and "\<And>acts. pagesHandler cfg = Some acts \<Longrightarrow> effects_ok ok acts"
      and "I (start_run Primary (emit SelectingFirstPrimary (emit Begin (init_state cfg res))))"
      and "\<And>s. I s \<Longrightarrow> completed Primary s \<Longrightarrow> \<not> aborted Primary s \<Longrightarrow> pagesHandler cfg \<noteq> None \<Longrightarrow>
             I (emit (Invoked Handler (runtime_error s)) (emit ExecutingHandler s))"
  shows "I (st (primary_chain cfg res))"
    and "I (st (chain_and_handler cfg res))"
    and "(\<And>s. I s \<Longrightarrow> I (emit SendingNotImplemented s)) \<Longrightarrow> I (st (try_block cfg res))"
proof -
  show P: "I (st (primary_chain cfg res))"
    unfolding primary_chain_def using keeps_start [OF assms(1,2,3,4,6)] .
  obtain x n s where pc: "primary_chain cfg res = (x, n, s)"
    by (cases "primary_chain cfg res")
  show C: "I (st (chain_and_handler cfg res))"
  proof (cases x)
    case (Inl e)
    then show ?thesis
      using P pc assms(2) by (simp add: chain_and_handler_def keeps_outer_def)
  next
    case (Inr b)
    have fin: "finished Primary s" "b = aborted Primary s"
      using startPullingChain_finished(1) [of cfg Primary no_adv _ b n s] pc Inr
      by (simp_all add: primary_chain_def)
    have "I (st (run_handler cfg b n s))"
      using keeps_handler [OF assms(1,2,3,5), of s b n] assms(7) [of s] P pc fin
      by (auto simp: finished_def)
    then show ?thesis
      using pc Inr by (auto simp: chain_and_handler_def split: prod.splits)
  qed
  obtain c n' s' where ch: "chain_and_handler cfg res = (c, n', s')"
    by (cases "chain_and_handler cfg res")
  show "I (st (try_block cfg res))" if "\<And>s. I s \<Longrightarrow> I (emit SendingNotImplemented s)"
    using C ch keeps_send [OF assms(1,2), of s'] that
    by (cases c) (auto simp: try_block_def split: prod.splits)
qed

lemma keeps_catch:
  assumes "keeps I g ok" and "keeps_outer I" and "chains_ok g ok cfg"
      and "useOnError cfg \<noteq> None \<Longrightarrow>
             g ErrorChain \<and> I (start_run ErrorChain (emit SelectingFirstError (handling e s)))"
      and "useOnError cfg = None \<Longrightarrow> I (emit NoErrorHandlers (handling e s))"
  shows "I (snd (catch_block cfg e its s))"
proof (cases "useOnError cfg")
  case None
  then show ?thesis
    using assms(2,5) by (simp add: catch_block_def keeps_outer_def)
next
  case (Some ec)
  have "I (st (error_chain cfg its (handling e s)))"
    unfolding error_chain_def using keeps_start [OF assms(1,2,3)] assms(4) Some by simp
  then show ?thesis
    using Some assms(2)
    by (auto simp: catch_block_def keeps_outer_def Let_def split: prod.splits sum.splits)
qed


subsection \<open>Events that only the request handler itself logs\<close>

fun request_only :: "event \<Rightarrow> bool" where
  "request_only Begin = True"
| "request_only SelectingFirstPrimary = True"
| "request_only ExecutingHandler = True"
| "request_only (Invoked Handler v) = True"
| "request_only (AttemptingToHandle e) = True"
| "request_only SelectingFirstError = True"
| "request_only NoErrorHandlers = True"
| "request_only SendingNotImplemented = True"
| "request_only (AutoDone r) = True"
| "request_only (NoAutoDone r) = True"
| "request_only ev = False"

definition unlogged :: "(event \<Rightarrow> bool) \<Rightarrow> state \<Rightarrow> bool" where
  "unlogged P s \<longleftrightarrow> (\<forall>ev \<in> set (trace s). \<not> P ev)"

lemma trace_simps [simp]:
  "trace (emit ev s) = trace s @ [ev]"
  "trace (rebind r i s) = trace s"
  "trace (set_pulled r i b s) = trace s"
  "trace (set_ran r s) = trace s"
  "trace (set_completed r s) = trace s"
  "trace (set_aborted r s) = trace s"
  by (simp_all add: state_defs)

lemma trace_done_body:
  "trace (done_body r s) = trace s @
     [if completed r s then WarnDoneFinished else if aborted r s then WarnDoneAborted else DoneAborting r]"
  by (simp add: done_body_def)

lemma driver_log_not_request_only: "driver_log ev \<Longrightarrow> \<not> request_only ev"
  by (cases ev) auto

lemma outer_log_not_request_only: "outer_log ev \<Longrightarrow> \<not> request_only ev"
  by (cases ev) auto

lemma keeps_unlogged:
  assumes "\<And>ev. P ev \<Longrightarrow> request_only ev"
  shows "keeps (unlogged P) (\<lambda>r. True) (\<lambda>e. True)" and "keeps_outer (unlogged P)"
proof -
  have n: "\<not> request_only ev \<Longrightarrow> \<not> P ev" for ev
    using assms by blast
  have d: "driver_log ev \<Longrightarrow> \<not> P ev" and o: "outer_log ev \<Longrightarrow> \<not> P ev" for ev
    using n driver_log_not_request_only outer_log_not_request_only by blast+
  show "keeps (unlogged P) (\<lambda>r. True) (\<lambda>e. True)"
    unfolding keeps_def unlogged_def
    by (auto simp: d n trace_done_body who_ok_def split: who.splits)
  show "keeps_outer (unlogged P)"
    unfolding keeps_outer_def unlogged_def by (auto simp: o n)
qed


subsection \<open>What the chain driver leaves as it is\<close>

lemma field_simps [simp]:
  "end_wrappers (emit ev s) = end_wrappers s"
  "end_wrappers (rebind r i s) = end_wrappers s"
  "end_wrappers (set_pulled r i b s) = end_wrappers s"
  "end_wrappers (set_ran r s) = end_wrappers s"
  "end_wrappers (set_completed r s) = end_wrappers s"
  "end_wrappers (set_aborted r s) = end_wrappers s"
  "end_wrappers (done_body r s) = end_wrappers s"
  "runtime_error (emit ev s) = runtime_error s"
  "runtime_error (rebind r i s) = runtime_error s"
  "runtime_error (set_pulled r i b s) = runtime_error s"
  "runtime_error (set_ran r s) = runtime_error s"
  "runtime_error (set_completed r s) = runtime_error s"
  "runtime_error (set_aborted r s) = runtime_error s"
  "runtime_error (done_body r s) = runtime_error s"
  "ctx_options (emit ev s) = ctx_options s"
  "ctx_options (rebind r i s) = ctx_options s"
  "ctx_options (set_pulled r i b s) = ctx_options s"
  "ctx_options (set_ran r s) = ctx_options s"
  "ctx_options (set_completed r s) = ctx_options s"
  "ctx_options (set_aborted r s) = ctx_options s"
  "ctx_options (done_body r s) = ctx_options s"
  by (simp_all add: state_defs done_body_def)

definition framed :: "chain_id list \<Rightarrow> jsval \<Rightarrow> state \<Rightarrow> bool" where
  "framed ws v s \<longleftrightarrow> end_wrappers s = ws \<and> runtime_error s = v"

lemma keeps_framed:
  "keeps (framed ws v) (\<lambda>r. True) (\<lambda>e. True)" "keeps_outer (framed ws v)"
  unfolding keeps_def keeps_outer_def framed_def by simp_all

fun no_write :: "effect \<Rightarrow> bool" where
  "no_write (SetOption k v) = False"
| "no_write (DeleteOption k) = False"
| "no_write e = True"

lemma keeps_options:
  "keeps (\<lambda>s. ctx_options s = m) (\<lambda>r. True) no_write" "keeps_outer (\<lambda>s. ctx_options s = m)"
  unfolding keeps_def keeps_outer_def by simp_all

lemma keeps_logged:
  "keeps (\<lambda>s. ev \<in> set (trace s)) (\<lambda>r. True) (\<lambda>e. True)" "keeps_outer (\<lambda>s. ev \<in> set (trace s))"
  unfolding keeps_def keeps_outer_def by (simp_all add: trace_done_body)

subsection \<open>Before the \<open>catch\<close>: no closure and no callback of the error handling chain\<close>





lemma closure_simps [simp]:
  "runtime_next (emit ev s) = runtime_next s"
  "runtime_next (set_pulled r i b s) = runtime_next s"
  "runtime_next (set_ran r s) = runtime_next s"
  "runtime_next (set_completed r s) = runtime_next s"
  "runtime_next (set_aborted r s) = runtime_next s"
  "runtime_next (done_body r s) = runtime_next s"
  "runtime_next (rebind r i s) = NextOf r i"
  "runtime_done (rebind r i s) = DoneOf r"
  "captured_next (emit ev s) = captured_next s"
  "captured_next (set_pulled r i b s) = captured_next s"
  "captured_next (set_ran r s) = captured_next s"
  "captured_next (set_completed r s) = captured_next s"
  "captured_next (set_aborted r s) = captured_next s"
  "captured_next (done_body r s) = captured_next s"
  "captured_next (rebind r i s) = captured_next s"
  by (simp_all add: state_defs done_body_def)

lemma not_chain [simp]:
  "(r \<noteq> ErrorChain) = (r = Primary)" "(r \<noteq> Primary) = (r = ErrorChain)"
  by (cases r; simp)+


subsection \<open>In the \<open>catch\<close>: the primary run is over, and \<open>runtime.error\<close> is the thrown value\<close>








subsection \<open>After \<open>done()\<close> has aborted the primary run\<close>

definition none_after_done :: "event list \<Rightarrow> bool" where
  "none_after_done tr \<longleftrightarrow>
     (\<forall>pre post. tr = pre @ DoneAborting Primary # post \<longrightarrow>
        (\<forall>i v. Invoked (Middleware Primary i) v \<notin> set post))"








subsection \<open>After the primary chain and the handler\<close>

lemma keeps_finished:
  "keeps (finished r0) (\<lambda>r. True) (\<lambda>e. True)" "keeps_outer (finished r0)"
  unfolding keeps_def keeps_outer_def finished_def by auto

lemma end_through_finished:
  assumes "\<forall>r \<in> set ws. finished r s"
  shows "fst (end_through ws s) = Returned
       \<and> run (snd (end_through ws s)) = run s
       \<and> writableEnded (snd (end_through ws s))
       \<and> headersSent (snd (end_through ws s))
       \<and> statusCode (snd (end_through ws s)) = statusCode s"
  using assms
proof (induction ws)
  case Nil
  then show ?case by simp
next
  case (Cons r ws)
  obtain c s1 where e: "end_through ws s = (c, s1)" by (cases "end_through ws s")
  then have 1: "c = Returned" "run s1 = run s" "writableEnded s1" "headersSent s1"
      "statusCode s1 = statusCode s"
    using Cons by simp_all
  have "finished r s1"
    using Cons.prems 1(2) by (simp add: finished_def aborted_def completed_def)
  then show ?case
    using e 1 by (auto simp: Let_def finished_def emit_def)
qed

lemma start_run_wrappers:
  "end_wrappers (start_run r s) = (if callDoneOnEnd s then r # end_wrappers s else end_wrappers s)"
  by (simp add: start_run_def Let_def callDoneOnEnd_def emit_def)

lemma init_wrappers [simp]: "end_wrappers (init_state cfg res) = []"
  by (simp add: init_state_def)

lemma after_chain_and_handler:
  assumes "fst (chain_and_handler cfg res) = Returned"
  shows "finished Primary (st (chain_and_handler cfg res))"
    and "set (end_wrappers (st (chain_and_handler cfg res))) \<subseteq> {Primary}"
proof -
  define s0 where "s0 = start_run Primary (emit SelectingFirstPrimary (emit Begin (init_state cfg res)))"
  have "framed (end_wrappers s0) (runtime_error s0) (st (chain_and_handler cfg res))"
    by (rule keeps_try(2) [OF keeps_framed])
       (simp_all add: framed_def s0_def)
  then have "end_wrappers (st (chain_and_handler cfg res)) = end_wrappers s0"
    by (simp add: framed_def)
  then show "set (end_wrappers (st (chain_and_handler cfg res))) \<subseteq> {Primary}"
    by (simp add: s0_def start_run_wrappers)
  obtain x n s where pc: "primary_chain cfg res = (x, n, s)"
    by (cases "primary_chain cfg res")
  show "finished Primary (st (chain_and_handler cfg res))"
  proof (cases x)
    case (Inl e)
    then show ?thesis using assms pc by (simp add: chain_and_handler_def)
  next
    case (Inr b)
    have fin: "finished Primary s"
      using startPullingChain_finished(1) [of cfg Primary no_adv _ b n s] pc Inr
      by (simp add: primary_chain_def)
    have "finished Primary (st (run_handler cfg b n s))"
      by (rule keeps_handler [OF keeps_finished]) (simp_all add: fin)
    then show ?thesis
      using pc Inr by (auto simp: chain_and_handler_def split: prod.splits)
  qed
qed

lemma send_if_unsent_returns:
  assumes "finished Primary s" and "set (end_wrappers s) \<subseteq> {Primary}"
  shows "fst (send_if_unsent s) = Returned"
    and "writableEnded (snd (send_if_unsent s)) \<or> headersSent (snd (send_if_unsent s))"
    and "\<not> writableEnded s \<Longrightarrow> \<not> headersSent s \<Longrightarrow>
           statusCode (snd (send_if_unsent s)) = 501 \<and> writableEnded (snd (send_if_unsent s))
           \<and> SendingNotImplemented \<in> set (trace (snd (send_if_unsent s)))"
proof -
  define s1 where "s1 = (emit SendingNotImplemented s)\<lparr>statusCode := 501\<rparr>"
  have w: "\<forall>r \<in> set (end_wrappers s1). finished r s1"
    using assms by (auto simp: s1_def finished_def)
  note E = end_through_finished [OF w]
  obtain c s2 where r: "end_through (end_wrappers s1) s1 = (c, s2)"
    by (cases "end_through (end_wrappers s1) s1")
  have c: "c = Returned" "writableEnded s2" "statusCode s2 = 501"
    using E r by (simp_all add: s1_def)
  have "SendingNotImplemented \<in> set (trace s2)"
    using keeps_end_through [OF keeps_logged(1), of SendingNotImplemented s1 "end_wrappers s1"] r
    by (simp add: s1_def)
  then have u: "\<not> writableEnded s \<Longrightarrow> \<not> headersSent s \<Longrightarrow>
      send_if_unsent s = (Returned, emit Done s2) \<and> statusCode s2 = 501 \<and> writableEnded s2
        \<and> SendingNotImplemented \<in> set (trace s2)"
    using r c by (simp add: send_if_unsent_def sendNotImplemented_def res_end_def s1_def)
  show "fst (send_if_unsent s) = Returned"
    using u by (cases "\<not> writableEnded s \<and> \<not> headersSent s") (auto simp: send_if_unsent_def)
  show "writableEnded (snd (send_if_unsent s)) \<or> headersSent (snd (send_if_unsent s))"
    using u by (cases "\<not> writableEnded s \<and> \<not> headersSent s") (auto simp: send_if_unsent_def emit_def)
  show "\<not> writableEnded s \<Longrightarrow> \<not> headersSent s \<Longrightarrow>
           statusCode (snd (send_if_unsent s)) = 501 \<and> writableEnded (snd (send_if_unsent s))
           \<and> SendingNotImplemented \<in> set (trace (snd (send_if_unsent s)))"
    using u by (auto simp: emit_def)
qed

lemma try_block_completion: "fst (try_block cfg res) = fst (chain_and_handler cfg res)"
proof (cases "fst (chain_and_handler cfg res)")
  case Returned
  then show ?thesis
    using send_if_unsent_returns(1) [OF after_chain_and_handler [OF Returned]]
    by (auto simp: try_block_def split: prod.splits)
next
  case (Threw e)
  then show ?thesis
    by (auto simp: try_block_def split: prod.splits)
qed

lemma try_block_threw:
  "fst (chain_and_handler cfg res) = Threw e \<Longrightarrow> try_block cfg res = chain_and_handler cfg res"
  by (auto simp: try_block_def split: prod.splits)


subsection \<open>The phases of a request\<close>




lemma request_threw:
  assumes "fst (chain_and_handler cfg res) = Threw e"
  shows "request cfg res =
           catch_block cfg e (fst (snd (chain_and_handler cfg res))) (st (chain_and_handler cfg res))"
  using assms try_block_threw [OF assms]
  by (auto simp: request_def split: prod.splits completion.splits)

lemma request_returned:
  assumes "fst (chain_and_handler cfg res) = Returned"
  shows "request cfg res = (Resolved, snd (send_if_unsent (st (chain_and_handler cfg res))))"
proof -
  have "fst (send_if_unsent (st (chain_and_handler cfg res))) = Returned"
    using send_if_unsent_returns(1) [OF after_chain_and_handler [OF assms]] .
  then show ?thesis
    using assms
    by (auto simp: request_def try_block_def split: prod.splits completion.splits)
qed

lemma error_run_eq:
  assumes "fst (chain_and_handler cfg res) = Threw e" and "useOnError cfg = Some ec"
  shows "error_run cfg res =
           Some (error_chain cfg (fst (snd (chain_and_handler cfg res)))
                   (handling e (st (chain_and_handler cfg res))))"
  using assms try_block_threw [OF assms(1)]
  by (auto simp: error_run_def split: prod.splits completion.splits)

lemma unlogged_try_block:
  assumes "\<And>ev. P ev \<Longrightarrow> request_only ev"
      and "\<not> P Begin" "\<not> P SelectingFirstPrimary" "\<not> P (AutoDone Primary)" "\<not> P (NoAutoDone Primary)"
      and "\<not> P ExecutingHandler" "\<And>v. \<not> P (Invoked Handler v)"
  shows "unlogged P (st (chain_and_handler cfg res))"
    and "\<not> P SendingNotImplemented \<Longrightarrow> unlogged P (st (try_block cfg res))"
proof -
  have s: "unlogged P (start_run Primary (emit SelectingFirstPrimary (emit Begin (init_state cfg res))))"
    using assms(2-5) by (simp add: unlogged_def start_run_def Let_def init_state_def emit_def)
  show "unlogged P (st (chain_and_handler cfg res))"
    by (rule keeps_try(2) [OF keeps_unlogged [of P]])
       (use assms s in \<open>simp_all add: unlogged_def\<close>)
  show "unlogged P (st (try_block cfg res))" if "\<not> P SendingNotImplemented"
    by (rule keeps_try(3) [OF keeps_unlogged [of P]])
       (use assms s that in \<open>simp_all add: unlogged_def\<close>)
qed

text \<open>No callback of the request writes to \<open>context.options\<close>.\<close>

definition never_writes_options :: "config \<Rightarrow> bool" where
  "never_writes_options cfg \<longleftrightarrow>
     (\<forall>acts. Fn acts \<in> set (use cfg) \<or> Fn acts \<in> set (or_empty (useOnError cfg))
             \<or> pagesHandler cfg = Some acts \<longrightarrow>
        (\<forall>k v. Effect (SetOption k v) \<notin> set acts) \<and> (\<forall>k. Effect (DeleteOption k) \<notin> set acts))"

lemma never_writes_chains:
  assumes "never_writes_options cfg"
  shows "chains_ok (\<lambda>r. True) no_write cfg"
    and "pagesHandler cfg = Some acts \<Longrightarrow> effects_ok no_write acts"
proof -
  have n: "no_write e" if "Effect e \<in> set acts'"
      "Fn acts' \<in> set (use cfg) \<or> Fn acts' \<in> set (or_empty (useOnError cfg))
             \<or> pagesHandler cfg = Some acts'" for e acts'
    using assms that unfolding never_writes_options_def by (cases e) auto
  show "chains_ok (\<lambda>r. True) no_write cfg"
    unfolding chains_ok_def effects_ok_def
  proof (intro allI impI)
    fix r acts' e
    assume "Fn acts' \<in> set (chain_of cfg r)" "Effect e \<in> set acts'"
    then show "no_write e"
      using n [of e acts'] by (cases r) (auto simp: chain_of_def or_empty_def split: option.splits)
  qed
  show "pagesHandler cfg = Some acts \<Longrightarrow> effects_ok no_write acts"
    using n [of _ acts] by (auto simp: effects_ok_def)
qed

subsection \<open>\<open>res.end\<close> through its wrappers\<close>



subsection \<open>From the end of the primary chain to the end of the request\<close>



lemma trace_init [simp]: "trace (init_state cfg res) = []"
  by (simp add: init_state_def)

lemma start_run_other [simp]:
  "r' \<noteq> r \<Longrightarrow> aborted r' (start_run r s) = aborted r' s"
  "r' \<noteq> r \<Longrightarrow> completed r' (start_run r s) = completed r' s"
  by (simp_all add: start_run_def Let_def aborted_def completed_def emit_def)


lemma handling_simps [simp]:
  "trace (handling e s) = trace s @ [AttemptingToHandle e]"
  "runtime_error (handling e s) = e"
  "aborted r (handling e s) = aborted r s"
  "completed r (handling e s) = completed r s"
  by (simp_all add: handling_def emit_def aborted_def completed_def)

lemma runtime_error_start_run [simp]: "runtime_error (start_run r s) = runtime_error s"
  by (simp add: start_run_def Let_def emit_def)

subsection \<open>\<open>done()\<close> in the primary chain, over a whole request\<close>


lemma none_after_done_Nil [simp]: "none_after_done []"
  by (simp add: none_after_done_def)






lemma init_state_flags [simp]:
  "\<not> aborted r (init_state cfg res)" "\<not> completed r (init_state cfg res)"
  by (simp_all add: aborted_def completed_def init_state_def fresh_run_def)

section \<open>The claims\<close>

subsection \<open>Requests used as examples\<close>

definition res0 :: response where
  "res0 = \<lparr>writableEnded = False, headersSent = False, statusCode = 200\<rparr>"

definition throwing_cfg :: config where
  "throwing_cfg = \<lparr>descriptor = None, use = [Fn [Effect (Throw (JError ''bad''))]],
                    useOnError = None, options = None, pagesHandler = None\<rparr>"

definition failing_handlers_cfg :: config where
  "failing_handlers_cfg =
     \<lparr>descriptor = None, use = [Fn [Effect (Throw (JError ''bad''))]],
      useOnError = Some [Fn [Effect ReadError, Effect (Throw (JError ''worse''))]],
      options = None, pagesHandler = None\<rparr>"

definition idle_handlers_cfg :: config where
  "idle_handlers_cfg =
     \<lparr>descriptor = None, use = [Fn [Effect (Throw (JError ''bad''))]],
      useOnError = Some [Fn [Effect ReadError]],
      options = None, pagesHandler = None\<rparr>"

definition failing_defaults :: factory_defaults where
  "failing_defaults =
     \<lparr>defaultUse = [Fn [Effect (Throw (JError ''bad''))]], defaultUseOnError = None,
      defaultOptions = None\<rparr>"

definition plain_params :: factory_params where
  "plain_params =
     \<lparr>descriptor' = None, prependUse = None, appendUse = None, prependUseOnError = None,
      appendUseOnError = None, passedOptions = None\<rparr>"


definition writing_cfg :: config where
  "writing_cfg =
     \<lparr>descriptor = None,
      use = [Fn [Effect (SetOption ''callDoneOnEnd'' (JBool False)),
                 Effect (SetOption ''extra'' (JString ''x'')),
                 Effect (Throw (JError ''bad''))]],
      useOnError = Some [Fn [Effect ResEnd], Fn [Effect ReadError]],
      options = None, pagesHandler = None\<rparr>"


definition stub_cfg :: config where
  "stub_cfg =
     \<lparr>descriptor = None, use = [Fn [Effect ReadError]],
      useOnError = None, options = None, pagesHandler = None\<rparr>"





text \<open>The definitions to unfold when a request is evaluated.\<close>

lemmas eval_defs = request_def try_block_def chain_and_handler_def primary_chain_def
  startPullingChain_def start_run_def init_state_def callDoneOnEnd_def fresh_run_def
  catch_block_def error_chain_def handling_def error_run_def run_handler_def
  send_if_unsent_def sendNotImplemented_def res_end_def
  pullChain.simps call_next.simps chain_of_def perform_def call_done_def done_body_def
  state_defs no_adv_def bump_def advance_def Let_def res0_def
  withMiddleware_def closure_def

subsection \<open>C8: a second \<open>done()\<close>, and \<open>done()\<close> or \<open>next()\<close> after completion\<close>

text \<open>
  C8. Calling \<open>runtime.done()\<close> again in a run is a no-op that only logs a warning, and
  so are \<open>done()\<close> and \<open>next()\<close> once the run has completed; none of them throws.
  A call of \<open>done()\<close> always leaves its run aborted or completed. In any state where the
  run is aborted or completed (so after any earlier call of \<open>done()\<close> in that run), a
  call of \<open>done()\<close> returns and changes the state by one warning in the log only, so the
  variables of the runs keep their values. Once the run has completed, a call of
  \<open>next()\<close> returns, pulls nothing, and changes the state by one warning only.
\<close>


theorem done_again_and_controls_after_completion_only_warn:
  "(let s1 = snd (call_done (DoneOf r) s) in aborted r s1 \<or> completed r s1)
   \<and> (aborted r s \<or> completed r s \<longrightarrow>
        call_done (DoneOf r) s =
          (Returned, emit (if completed r s then WarnDoneFinished else WarnDoneAborted) s)
        \<and> run (snd (call_done (DoneOf r) s)) = run s)
   \<and> (completed r s \<longrightarrow>
        call_next cfg (NextOf r i) its s = (Returned, no_adv, emit WarnNextFinished s)
        \<and> run (st (call_next cfg (NextOf r i) its s)) = run s)"
  by (auto simp: call_done_def done_body_def call_next.simps Let_def) (simp_all add: emit_def)

theorem done_again_and_controls_after_completion_only_warn_witness:
  "call_done (DoneOf Primary) (set_aborted Primary (init_state throwing_cfg res0)) =
     (Returned, emit WarnDoneAborted (set_aborted Primary (init_state throwing_cfg res0)))
   \<and> call_done (DoneOf Primary) (set_completed Primary (init_state throwing_cfg res0)) =
     (Returned, emit WarnDoneFinished (set_completed Primary (init_state throwing_cfg res0)))
   \<and> call_next throwing_cfg (NextOf Primary 0) no_adv
        (set_completed Primary (init_state throwing_cfg res0)) =
     (Returned, no_adv, emit WarnNextFinished (set_completed Primary (init_state throwing_cfg res0)))"
  using done_again_and_controls_after_completion_only_warn
          [of Primary "set_aborted Primary (init_state throwing_cfg res0)" throwing_cfg 0 no_adv]
        done_again_and_controls_after_completion_only_warn
          [of Primary "set_completed Primary (init_state throwing_cfg res0)" throwing_cfg 0 no_adv]
  by simp


subsection \<open>C3: a failure without \<open>useOnError\<close>\<close>



subsection \<open>C4: a failure in the error handling chain\<close>



subsection \<open>C5: an error handling chain that does not send the response\<close>

text \<open>
  C5. When the primary chain or the handler throws \<open>e\<close> and the error handling chain
  runs to its end (it returns, aborted or not) leaving the response with its headers not
  sent and its stream not ended, the request handler rejects with the original \<open>e\<close>.
\<close>

theorem unsent_after_error_chain_rethrows:
  assumes "fst (chain_and_handler cfg res) = Threw e"
      and "map_option (\<lambda>x. (fst x, writableEnded (st x), headersSent (st x))) (error_run cfg res)
             = Some (Inr b, False, False)"
  shows "fst (request cfg res) = Rejected e"
proof -
  obtain ec where ec: "useOnError cfg = Some ec"
    using assms(2) by (cases "useOnError cfg") (auto simp: error_run_def split: prod.splits completion.splits)
  define x where "x = error_chain cfg (fst (snd (chain_and_handler cfg res)))
               (handling e (st (chain_and_handler cfg res)))"
  have "fst x = Inr b" "\<not> writableEnded (st x)" "\<not> headersSent (st x)"
    using assms(2) error_run_eq [OF assms(1) ec] by (simp_all add: x_def)
  then show ?thesis
    using request_threw [OF assms(1)] ec
    by (auto simp: catch_block_def Let_def x_def [symmetric] split: prod.splits sum.splits)
qed

theorem unsent_after_error_chain_rethrows_witness:
  "fst (chain_and_handler idle_handlers_cfg res0) = Threw (JError ''bad'')
   \<and> map_option (\<lambda>x. (fst x, writableEnded (st x), headersSent (st x)))
        (error_run idle_handlers_cfg res0) = Some (Inr False, False, False)
   \<and> fst (request idle_handlers_cfg res0) = Rejected (JError ''bad'')"
proof -
  have 1: "fst (chain_and_handler idle_handlers_cfg res0) = Threw (JError ''bad'')" by (simp add: eval_defs throwing_cfg_def failing_handlers_cfg_def idle_handlers_cfg_def)
  have 2: "map_option (\<lambda>x. (fst x, writableEnded (st x), headersSent (st x)))
        (error_run idle_handlers_cfg res0) = Some (Inr False, False, False)"
    by (simp add: eval_defs throwing_cfg_def failing_handlers_cfg_def idle_handlers_cfg_def)
  show ?thesis
    using unsent_after_error_chain_rethrows [OF 1 2] 1 2 by simp
qed


subsection \<open>C10: \<open>middlewareFactory\<close> always passes an array as \<open>useOnError\<close>\<close>

text \<open>
  C10. The handler of a factory passes to \<open>withMiddleware\<close> the concatenation of
  \<open>prependUseOnError\<close>, the default \<open>useOnError\<close> and \<open>appendUseOnError\<close> (each the
  empty array when absent), which is always an array. So the branch "no error handling
  middleware found" is never taken: its message is never logged. When the primary chain
  or the handler throws \<open>e\<close>, the run over that array is started, and when it returns
  with the response not sent, the request handler rejects with \<open>e\<close>.
\<close>

theorem factory_always_supplies_useOnError:
  "useOnError (factory_args d p) =
     Some (or_empty (prependUseOnError p) @ or_empty (defaultUseOnError d)
           @ or_empty (appendUseOnError p))
   \<and> NoErrorHandlers \<notin> set (trace (snd (middlewareFactory d h p res)))
   \<and> (\<forall>e. fst (chain_and_handler (factory_config d h p) res) = Threw e \<longrightarrow>
         SelectingFirstError \<in> set (trace (snd (middlewareFactory d h p res)))
         \<and> (\<exists>x. error_run (factory_config d h p) res = Some x
                \<and> (\<forall>b. fst x = Inr b \<longrightarrow> \<not> writableEnded (st x) \<longrightarrow> \<not> headersSent (st x) \<longrightarrow>
                      fst (middlewareFactory d h p res) = Rejected e)))"
proof -
  define cfg where "cfg = factory_config d h p"
  obtain ec where ec: "useOnError cfg = Some ec"
    by (simp add: cfg_def factory_config_def closure_def factory_args_def)
  have mf: "middlewareFactory d h p res = request cfg res"
    by (simp add: middlewareFactory_def withMiddleware_def cfg_def factory_config_def)
  have 1: "useOnError (factory_args d p) =
     Some (or_empty (prependUseOnError p) @ or_empty (defaultUseOnError d)
           @ or_empty (appendUseOnError p))"
    by (simp add: factory_args_def)
  let ?P = "\<lambda>ev. ev = NoErrorHandlers"
  have 2: "NoErrorHandlers \<notin> set (trace (snd (request cfg res)))"
  proof (cases "fst (chain_and_handler cfg res)")
    case Returned
    have "unlogged ?P (st (try_block cfg res))"
      by (rule unlogged_try_block(2)) auto
    moreover have "st (try_block cfg res) = snd (request cfg res)"
      using try_block_completion [of cfg res] Returned
      by (auto simp: request_def split: prod.splits completion.splits)
    ultimately show ?thesis by (auto simp: unlogged_def)
  next
    case (Threw e)
    have u: "unlogged ?P (st (chain_and_handler cfg res))"
      by (rule unlogged_try_block(1)) auto
    have "unlogged ?P (snd (catch_block cfg e (fst (snd (chain_and_handler cfg res)))
              (st (chain_and_handler cfg res))))"
      by (rule keeps_catch [OF keeps_unlogged [of ?P]])
         (use u ec in \<open>auto simp: unlogged_def handling_def start_run_def Let_def emit_def\<close>)
    then show ?thesis
      using request_threw [OF Threw] by (auto simp: unlogged_def)
  qed
  have 3: "SelectingFirstError \<in> set (trace (snd (request cfg res)))
         \<and> (\<exists>x. error_run cfg res = Some x
                \<and> (\<forall>b. fst x = Inr b \<longrightarrow> \<not> writableEnded (st x) \<longrightarrow> \<not> headersSent (st x) \<longrightarrow>
                      fst (request cfg res) = Rejected e))"
    if t: "fst (chain_and_handler cfg res) = Threw e" for e
  proof -
    define s where "s = handling e (st (chain_and_handler cfg res))"
    define its where "its = fst (snd (chain_and_handler cfg res))"
    have er: "error_run cfg res = Some (error_chain cfg its s)"
      using error_run_eq [OF t ec] by (simp add: s_def its_def)
    have rq: "request cfg res = catch_block cfg e its (st (chain_and_handler cfg res))"
      using request_threw [OF t] by (simp add: its_def)
    have "SelectingFirstError \<in> set (trace (st (error_chain cfg its s)))"
      unfolding error_chain_def
      by (rule keeps_start [OF keeps_logged])
         (simp_all add: start_run_def Let_def emit_def)
    then have a: "SelectingFirstError \<in> set (trace (snd (request cfg res)))"
      unfolding rq using ec
      by (auto simp: catch_block_def Let_def s_def [symmetric] split: prod.splits sum.splits)
    have b: "fst (request cfg res) = Rejected e"
      if "fst (error_chain cfg its s) = Inr b" "\<not> writableEnded (st (error_chain cfg its s))"
         "\<not> headersSent (st (error_chain cfg its s))" for b
      unfolding rq using ec that
      by (auto simp: catch_block_def Let_def s_def [symmetric] split: prod.splits sum.splits)
    show ?thesis
      using a b er by auto
  qed
  show ?thesis
    using 1 2 3 unfolding mf cfg_def by blast
qed


theorem factory_always_supplies_useOnError_witness:
  "useOnError (factory_args failing_defaults plain_params) = Some []
   \<and> fst (chain_and_handler (factory_config failing_defaults None plain_params) res0)
        = Threw (JError ''bad'')
   \<and> NoErrorHandlers \<notin> set (trace (snd (middlewareFactory failing_defaults None plain_params res0)))
   \<and> SelectingFirstError \<in> set (trace (snd (middlewareFactory failing_defaults None plain_params res0)))
   \<and> fst (middlewareFactory failing_defaults None plain_params res0) = Rejected (JError ''bad'')"
proof -
  have 1: "fst (chain_and_handler (factory_config failing_defaults None plain_params) res0)
        = Threw (JError ''bad'')"
    by (simp add: eval_defs factory_config_def factory_args_def or_empty_def spread_def
        failing_defaults_def plain_params_def)
  have 2: "fst (middlewareFactory failing_defaults None plain_params res0) = Rejected (JError ''bad'')"
    by (simp add: eval_defs middlewareFactory_def factory_args_def or_empty_def spread_def
        failing_defaults_def plain_params_def)
  have 3: "useOnError (factory_args failing_defaults plain_params) = Some []"
    by (simp add: factory_args_def or_empty_def failing_defaults_def plain_params_def)
  show ?thesis
    using factory_always_supplies_useOnError [of failing_defaults plain_params None res0] 1 2 3
    by blast
qed

subsection \<open>C6: the default "not implemented" response\<close>

text \<open>
  C6, as stated, fails: when the primary chain throws and \<open>useOnError\<close> is absent,
  nothing has sent the response, and yet no "not implemented" response is sent; the
  request handler rejects and the response is left as it was (status 200, not ended). The
  same happens when the error handling chain runs to its end without sending.
\<close>

theorem default_response_counterexample:
  "useOnError throwing_cfg = None
   \<and> fst (request throwing_cfg res0) = Rejected (JError ''bad'')
   \<and> \<not> writableEnded (snd (request throwing_cfg res0))
   \<and> \<not> headersSent (snd (request throwing_cfg res0))
   \<and> statusCode (snd (request throwing_cfg res0)) = 200
   \<and> SendingNotImplemented \<notin> set (trace (snd (request throwing_cfg res0)))
   \<and> map_option (\<lambda>x. (fst x, writableEnded (st x), headersSent (st x)))
        (error_run idle_handlers_cfg res0) = Some (Inr False, False, False)
   \<and> fst (request idle_handlers_cfg res0) = Rejected (JError ''bad'')
   \<and> \<not> writableEnded (snd (request idle_handlers_cfg res0))
   \<and> \<not> headersSent (snd (request idle_handlers_cfg res0))
   \<and> statusCode (snd (request idle_handlers_cfg res0)) = 200
   \<and> SendingNotImplemented \<notin> set (trace (snd (request idle_handlers_cfg res0)))"
  by (simp add: eval_defs throwing_cfg_def idle_handlers_cfg_def)

text \<open>
  C6, amended. When neither the primary chain nor the handler throws, the request handler
  resolves with the response sent; if nothing had sent it by then, it is the default
  "not implemented" response (status 501, ended through \<open>res.end\<close>), whether or not
  \<open>useOnError\<close> was supplied. When the primary chain or the handler throws, the default
  response is never sent.
\<close>

theorem default_response_when_nothing_throws:
  "(fst (chain_and_handler cfg res) = Returned \<longrightarrow>
      fst (request cfg res) = Resolved
      \<and> (writableEnded (snd (request cfg res)) \<or> headersSent (snd (request cfg res)))
      \<and> (\<not> writableEnded (st (chain_and_handler cfg res))
           \<and> \<not> headersSent (st (chain_and_handler cfg res)) \<longrightarrow>
          statusCode (snd (request cfg res)) = 501
          \<and> writableEnded (snd (request cfg res))
          \<and> SendingNotImplemented \<in> set (trace (snd (request cfg res)))))
   \<and> (\<forall>e. fst (chain_and_handler cfg res) = Threw e \<longrightarrow>
         SendingNotImplemented \<notin> set (trace (snd (request cfg res))))"
proof (intro conjI impI allI)
  assume r: "fst (chain_and_handler cfg res) = Returned"
  note S = send_if_unsent_returns [OF after_chain_and_handler [OF r]]
  show "fst (request cfg res) = Resolved"
    using request_returned [OF r] by simp
  show "writableEnded (snd (request cfg res)) \<or> headersSent (snd (request cfg res))"
    using request_returned [OF r] S(2) by simp
  assume u: "\<not> writableEnded (st (chain_and_handler cfg res))
           \<and> \<not> headersSent (st (chain_and_handler cfg res))"
  show "statusCode (snd (request cfg res)) = 501"
    and "writableEnded (snd (request cfg res))"
    and "SendingNotImplemented \<in> set (trace (snd (request cfg res)))"
    using request_returned [OF r] S(3) u by simp_all
next
  fix e
  assume t: "fst (chain_and_handler cfg res) = Threw e"
  let ?P = "\<lambda>ev. ev = SendingNotImplemented"
  have u: "unlogged ?P (st (chain_and_handler cfg res))"
    by (rule unlogged_try_block(1)) auto
  have "unlogged ?P (snd (catch_block cfg e (fst (snd (chain_and_handler cfg res)))
            (st (chain_and_handler cfg res))))"
    by (rule keeps_catch [OF keeps_unlogged [of ?P]])
       (use u in \<open>auto simp: unlogged_def handling_def start_run_def Let_def emit_def\<close>)
  then show "SendingNotImplemented \<notin> set (trace (snd (request cfg res)))"
    using request_threw [OF t] by (auto simp: unlogged_def)
qed

theorem default_response_when_nothing_throws_witness:
  "fst (chain_and_handler stub_cfg res0) = Returned
   \<and> \<not> writableEnded (st (chain_and_handler stub_cfg res0))
   \<and> \<not> headersSent (st (chain_and_handler stub_cfg res0))
   \<and> fst (request stub_cfg res0) = Resolved
   \<and> statusCode (snd (request stub_cfg res0)) = 501
   \<and> fst (chain_and_handler throwing_cfg res0) = Threw (JError ''bad'')
   \<and> SendingNotImplemented \<notin> set (trace (snd (request throwing_cfg res0)))"
proof -
  have 1: "fst (chain_and_handler stub_cfg res0) = Returned"
    "\<not> writableEnded (st (chain_and_handler stub_cfg res0))"
    "\<not> headersSent (st (chain_and_handler stub_cfg res0))"
    "fst (chain_and_handler throwing_cfg res0) = Threw (JError ''bad'')"
    by (simp_all add: eval_defs stub_cfg_def throwing_cfg_def)
  show ?thesis
    using default_response_when_nothing_throws [of stub_cfg res0]
      default_response_when_nothing_throws [of throwing_cfg res0] 1
    by blast
qed

subsection \<open>C9: \<open>context.options\<close> is not frozen\<close>

text \<open>
  C9, as stated, fails: the options object is an object literal that nothing freezes.
  A primary middleware that sets \<open>callDoneOnEnd\<close> to false and adds a key changes the
  object for the rest of the request: both writes are there at the end, and the run of
  the error handling chain, which reads \<open>callDoneOnEnd\<close> when it starts, no longer wraps
  \<open>res.end\<close>.
\<close>

theorem options_not_frozen_counterexample:
  "ctx_options (init_state writing_cfg res0) ''callDoneOnEnd'' = Some (JBool True)
   \<and> ctx_options (init_state writing_cfg res0) ''extra'' = None
   \<and> ctx_options (snd (request writing_cfg res0)) ''callDoneOnEnd'' = Some (JBool False)
   \<and> ctx_options (snd (request writing_cfg res0)) ''extra'' = Some (JString ''x'')
   \<and> AutoDone Primary \<in> set (trace (snd (request writing_cfg res0)))
   \<and> NoAutoDone ErrorChain \<in> set (trace (snd (request writing_cfg res0)))"
  by (simp add: eval_defs writing_cfg_def)

text \<open>
  C9, amended. The options object is built once for a request, as
  \<open>{callDoneOnEnd: true, ...options}\<close>, and the runtime itself never writes to it: when no
  middleware and no handler writes to it, it is the same at the end of the request. It is
  not frozen: a write or a delete by a callback takes effect.
\<close>

theorem options_unchanged_unless_written:
  "(never_writes_options cfg \<longrightarrow>
      ctx_options (snd (request cfg res)) = [''callDoneOnEnd'' \<mapsto> JBool True] ++ spread (options cfg))
   \<and> snd (perform w (SetOption k v) s) = s\<lparr>ctx_options := (ctx_options s)(k \<mapsto> v)\<rparr>
   \<and> snd (perform w (DeleteOption k) s) = s\<lparr>ctx_options := (ctx_options s)(k := None)\<rparr>"
proof (intro conjI impI)
  assume nw: "never_writes_options cfg"
  define m where "m = [''callDoneOnEnd'' \<mapsto> JBool True] ++ spread (options cfg)"
  let ?I = "\<lambda>s. ctx_options s = m"
  note C = never_writes_chains [OF nw]
  have start: "?I (start_run Primary (emit SelectingFirstPrimary (emit Begin (init_state cfg res))))"
    by (simp add: start_run_def Let_def emit_def init_state_def m_def spread_def)
  have T: "?I (st (try_block cfg res))"
    by (rule keeps_try(3) [OF keeps_options C(1)]) (use C(2) start in simp_all)
  show "ctx_options (snd (request cfg res)) = m"
  proof (cases "fst (try_block cfg res)")
    case Returned
    then show ?thesis
      using T by (auto simp: request_def split: prod.splits)
  next
    case (Threw e)
    have "?I (snd (catch_block cfg e (fst (snd (try_block cfg res))) (st (try_block cfg res))))"
      by (rule keeps_catch [OF keeps_options C(1)])
         (use T in \<open>simp_all add: handling_def start_run_def Let_def emit_def\<close>)
    then show ?thesis
      using Threw by (auto simp: request_def split: prod.splits)
  qed
qed (simp_all add: perform_def)

theorem options_unchanged_unless_written_witness:
  "never_writes_options idle_handlers_cfg
   \<and> ctx_options (snd (request idle_handlers_cfg res0)) = [''callDoneOnEnd'' \<mapsto> JBool True]"
proof -
  have 1: "never_writes_options idle_handlers_cfg"
    by (auto simp: never_writes_options_def idle_handlers_cfg_def or_empty_def)
  have 2: "spread (options idle_handlers_cfg) = Map.empty"
    by (simp add: spread_def idle_handlers_cfg_def)
  show ?thesis
    using options_unchanged_unless_written [of idle_handlers_cfg res0] 1 2 by simp
qed


subsection \<open>C7: \<open>callDoneOnEnd\<close>\<close>





subsection \<open>C2: \<open>runtime.error\<close> in the two chains\<close>




subsection \<open>C1: \<open>done()\<close> in the primary chain\<close>





end
